theory Spec2Isabelle
  imports Complex_Main
begin

section \<open>Source text\<close>

text \<open>
  A source text (a Python \<open>str\<close>) is a \<^typ>\<open>string\<close>: a sequence of characters
  with the code points 0 to 255. The characters the code looks for are all ASCII: the
  comment and quote delimiters, the newline, the operators and the letters of the
  keywords.
\<close>

abbreviation newline :: char where "newline \<equiv> CHR 0x0A"
abbreviation dquote :: char where "dquote \<equiv> CHR 0x22"
abbreviation squote :: char where "squote \<equiv> CHR 0x27"
abbreviation backtick :: char where "backtick \<equiv> CHR 0x60"
abbreviation slash :: char where "slash \<equiv> CHR ''/''"
abbreviation star :: char where "star \<equiv> CHR ''*''"
abbreviation hash :: char where "hash \<equiv> CHR ''#''"
abbreviation dot :: char where "dot \<equiv> CHR ''.''"

section \<open>remove\_comments\_and\_strings\<close>

text \<open>
  Each \<open>re.sub\<close> call of \<open>remove_comments_and_strings\<close> is one scan from left to
  right: at every position the pattern is tried; where it matches, the replacement is
  emitted and the scan goes on after the match, otherwise the character is copied.

  \<open>re.sub(r'//.*$', '', s, flags=re.MULTILINE)\<close>: a dot matches every character but
  the newline and \<open>$\<close> matches at the end of a line, so a match runs from \<open>//\<close> up to
  (not including) the next newline, or to the end of the text.
\<close>

function sub_slash_comments :: "string \<Rightarrow> string" where
  "sub_slash_comments [] = []"
| "sub_slash_comments [c] = [c]"
| "sub_slash_comments (c # d # cs) =
     (if c = slash \<and> d = slash
      then sub_slash_comments (dropWhile (\<lambda>x. x \<noteq> newline) cs)
      else c # sub_slash_comments (d # cs))"
  by pat_completeness auto
termination
  by (relation "measure length") (auto simp: length_dropWhile_le le_imp_less_Suc less_SucI)

text \<open>\<open>re.sub(r'#.*$', '', s, flags=re.MULTILINE)\<close>: the same with the one-character
  opener \<open>#\<close>.\<close>

function sub_hash_comments :: "string \<Rightarrow> string" where
  "sub_hash_comments [] = []"
| "sub_hash_comments (c # cs) =
     (if c = hash
      then sub_hash_comments (dropWhile (\<lambda>x. x \<noteq> newline) cs)
      else c # sub_hash_comments cs)"
  by pat_completeness auto
termination
  by (relation "measure length") (auto simp: length_dropWhile_le le_imp_less_Suc)

text \<open>
  \<open>re.sub(r'/\*.*?\*/', '', s, flags=re.DOTALL)\<close>: after \<open>/*\<close> the lazy \<open>.*?\<close>
  stops at the first \<open>*/\<close> that follows (newlines included). \<open>after_close\<close> gives the
  text behind that first \<open>*/\<close>, or \<open>None\<close> when there is none; then the pattern does
  not match at this position and the scan moves on by one character.
\<close>

fun after_close :: "string \<Rightarrow> string option" where
  "after_close [] = None"
| "after_close [c] = None"
| "after_close (c # d # cs) =
     (if c = star \<and> d = slash then Some cs else after_close (d # cs))"

function sub_block_comments :: "string \<Rightarrow> string" where
  "sub_block_comments [] = []"
| "sub_block_comments [c] = [c]"
| "sub_block_comments (c # d # cs) =
     (if c = slash \<and> d = star
      then (case after_close cs of
              None \<Rightarrow> c # sub_block_comments (d # cs)
            | Some r \<Rightarrow> sub_block_comments r)
      else c # sub_block_comments (d # cs))"
  by pat_completeness auto
termination
proof -
  have shorter: "after_close cs = Some r \<Longrightarrow> length r < length cs" for cs r
    by (induction cs arbitrary: r rule: after_close.induct) (auto split: if_splits)
  show ?thesis
    by (relation "measure length") (auto dest: shorter)
qed

text \<open>
  \<open>re.sub(r'"[^"]*"', '""', s)\<close> and its two siblings for \<open>'\<close> and the backtick: a
  match runs from a quote to the next quote of the same kind and is replaced by the two
  quotes alone. A quote with no later partner is copied.
\<close>

function sub_quoted :: "char \<Rightarrow> string \<Rightarrow> string" where
  "sub_quoted q [] = []"
| "sub_quoted q (c # cs) =
     (if c = q \<and> q \<in> set cs
      then q # q # sub_quoted q (tl (dropWhile (\<lambda>x. x \<noteq> q) cs))
      else c # sub_quoted q cs)"
  by pat_completeness auto
termination
proof (relation "measure (\<lambda>(q, s). length s)", goal_cases)
  case 1
  show ?case by simp
next
  case (2 q c cs)
  have "length (tl (dropWhile (\<lambda>x. x \<noteq> q) cs)) \<le> length cs"
    using length_dropWhile_le [of "\<lambda>x. x \<noteq> q" cs] by simp
  then show ?case by simp
next
  case (3 q c cs)
  show ?case by simp
qed

definition remove_comments_and_strings :: "string \<Rightarrow> string" where
  "remove_comments_and_strings code_content =
     (let code_content = sub_slash_comments code_content;
          code_content = sub_hash_comments code_content;
          code_content = sub_block_comments code_content;
          code_content = sub_quoted dquote code_content;
          code_content = sub_quoted squote code_content;
          code_content = sub_quoted backtick code_content
      in code_content)"

section \<open>count\_complexity\_keywords\<close>

text \<open>
  \<open>re.findall(pattern, cleaned_code, re.IGNORECASE)\<close> lists the matches of one more
  left-to-right scan, and the code takes the length of that list. For a keyword the
  pattern is \<open>\b\<close>, the escaped keyword, \<open>\b\<close>: the keyword's characters, compared
  without regard to case, between two word boundaries. A word character is a letter, a
  digit or the underscore; \<open>\b\<close> holds between two neighbours of which exactly one is a
  word character, the outside of the text counting as a non-word character.
  On a \<open>str\<close> both are those of Unicode: among the code points 0 to 255 the word
  characters are the ASCII letters and digits, the underscore, and the letters and
  numbers \<open>0xAA\<close>, \<open>0xB2\<close>, \<open>0xB3\<close>, \<open>0xB5\<close>, \<open>0xB9\<close>, \<open>0xBA\<close>,
  \<open>0xBC\<close> to \<open>0xBE\<close>, \<open>0xC0\<close> to \<open>0xD6\<close>, \<open>0xD8\<close> to \<open>0xF6\<close> and
  \<open>0xF8\<close> to \<open>0xFF\<close>; two of these characters are equal without regard to case when
  their lower-case forms are equal, and the lower-case form of \<open>A\<close> to \<open>Z\<close>,
  \<open>0xC0\<close> to \<open>0xD6\<close> and \<open>0xD8\<close> to \<open>0xDE\<close> lies 32 further on.
\<close>

definition is_word_char :: "char \<Rightarrow> bool" where
  "is_word_char c =
     (let n = (of_char c :: nat)
      in (48 \<le> n \<and> n \<le> 57) \<or> (65 \<le> n \<and> n \<le> 90) \<or> n = 95 \<or> (97 \<le> n \<and> n \<le> 122)
         \<or> n = 170 \<or> n = 178 \<or> n = 179 \<or> n = 181 \<or> n = 185 \<or> n = 186
         \<or> (188 \<le> n \<and> n \<le> 190) \<or> (192 \<le> n \<and> n \<le> 214)
         \<or> (216 \<le> n \<and> n \<le> 246) \<or> (248 \<le> n \<and> n \<le> 255))"

text \<open>\<open>file_path.lower()\<close> and the case folding of \<open>re.IGNORECASE\<close>.\<close>

definition lower_char :: "char \<Rightarrow> char" where
  "lower_char c =
     (let n = (of_char c :: nat)
      in if (65 \<le> n \<and> n \<le> 90) \<or> (192 \<le> n \<and> n \<le> 214) \<or> (216 \<le> n \<and> n \<le> 222)
         then char_of (n + 32) else c)"

definition lower :: "string \<Rightarrow> string" where
  "lower s = map lower_char s"

fun word_boundary :: "char option \<Rightarrow> char option \<Rightarrow> bool" where
  "word_boundary prev nxt =
     ((case prev of None \<Rightarrow> False | Some c \<Rightarrow> is_word_char c)
      \<noteq> (case nxt of None \<Rightarrow> False | Some c \<Rightarrow> is_word_char c))"

text \<open>
  Whether the keyword pattern matches at the head of \<open>s\<close>, where \<open>prev\<close> is the
  character just before (\<open>None\<close> at the start of the text). Every keyword of the rule
  sets is non-empty.
\<close>

definition match_word_at :: "string \<Rightarrow> char option \<Rightarrow> string \<Rightarrow> bool" where
  "match_word_at keyword prev s =
     (let n = length keyword
      in keyword \<noteq> [] \<and> n \<le> length s
         \<and> lower (take n s) = lower keyword
         \<and> word_boundary prev (Some (hd s))
         \<and> word_boundary (Some (last (take n s)))
               (case drop n s of [] \<Rightarrow> None | c # _ \<Rightarrow> Some c))"

text \<open>The scan of \<open>findall\<close>: after a match it goes on behind the match.\<close>

function count_word :: "string \<Rightarrow> char option \<Rightarrow> string \<Rightarrow> nat" where
  "count_word keyword prev [] = 0"
| "count_word keyword prev (c # cs) =
     (if match_word_at keyword prev (c # cs)
      then 1 + count_word keyword (Some (last (take (length keyword) (c # cs))))
                 (drop (length keyword) (c # cs))
      else count_word keyword (Some c) cs)"
  by pat_completeness auto
termination
  by (relation "measure (\<lambda>(k, p, s). length s)") (auto simp: match_word_at_def Let_def)

text \<open>
  The three operator patterns: \<open>\&\&|\|\|\<close> (one pattern for either of the keywords
  \<open>&&\<close> and \<open>||\<close>), \<open>\?\<close> and \<open>=>\<close>.
\<close>

fun count_and_or :: "string \<Rightarrow> nat" where
  "count_and_or [] = 0"
| "count_and_or [c] = 0"
| "count_and_or (c # d # cs) =
     (if (c = CHR ''&'' \<and> d = CHR ''&'') \<or> (c = CHR ''|'' \<and> d = CHR ''|'')
      then 1 + count_and_or cs else count_and_or (d # cs))"

fun count_question :: "string \<Rightarrow> nat" where
  "count_question [] = 0"
| "count_question (c # cs) = (if c = CHR ''?'' then 1 + count_question cs else count_question cs)"

fun count_arrow :: "string \<Rightarrow> nat" where
  "count_arrow [] = 0"
| "count_arrow [c] = 0"
| "count_arrow (c # d # cs) =
     (if c = CHR ''='' \<and> d = CHR ''>'' then 1 + count_arrow cs else count_arrow (d # cs))"

text \<open>The choice of the pattern for a keyword, and the number of its matches.\<close>

definition findall_count :: "string \<Rightarrow> string \<Rightarrow> nat" where
  "findall_count keyword cleaned_code =
     (if keyword \<in> set [''&&'', ''||''] then count_and_or cleaned_code
      else if keyword = ''?'' then count_question cleaned_code
      else if keyword = ''=>'' then count_arrow cleaned_code
      else count_word keyword None cleaned_code)"

text \<open>
  \<open>count_complexity_keywords\<close>: the local \<open>complexity\<close> starts at 1 and the loop
  over the keywords adds the number of matches of each.
\<close>

definition count_complexity_keywords :: "string \<Rightarrow> string list \<Rightarrow> int" where
  "count_complexity_keywords code_content keywords =
     (let cleaned_code = remove_comments_and_strings code_content;
          complexity = foldl (\<lambda>complexity keyword.
                                complexity + int (findall_count keyword cleaned_code))
                             1 keywords
      in max complexity 1)"

subsection \<open>The rule sets\<close>

definition analyze_java :: "string \<Rightarrow> int" where
  "analyze_java code_content = count_complexity_keywords code_content
     [''if'', ''else if'', ''while'', ''for'', ''switch'', ''case'', ''catch'',
      ''throw'', ''throws'', ''&&'', ''||'', ''?'', ''do'']"

definition analyze_javascript :: "string \<Rightarrow> int" where
  "analyze_javascript code_content = count_complexity_keywords code_content
     [''if'', ''else if'', ''while'', ''for'', ''switch'', ''case'', ''catch'',
      ''throw'', ''&&'', ''||'', ''?'', ''do'', ''function'', ''=>'']"

definition analyze_c_cpp :: "string \<Rightarrow> int" where
  "analyze_c_cpp code_content = count_complexity_keywords code_content
     [''if'', ''else if'', ''while'', ''for'', ''switch'', ''case'', ''catch'',
      ''throw'', ''&&'', ''||'', ''?'', ''do'']"

definition analyze_go :: "string \<Rightarrow> int" where
  "analyze_go code_content = count_complexity_keywords code_content
     [''if'', ''else if'', ''while'', ''for'', ''switch'', ''case'', ''defer'',
      ''&&'', ''||'', ''func'', ''go'', ''select'']"

definition analyze_csharp :: "string \<Rightarrow> int" where
  "analyze_csharp code_content = count_complexity_keywords code_content
     [''if'', ''else if'', ''while'', ''for'', ''foreach'', ''switch'', ''case'',
      ''catch'', ''throw'', ''&&'', ''||'', ''?'', ''do'']"

definition analyze_php :: "string \<Rightarrow> int" where
  "analyze_php code_content = count_complexity_keywords code_content
     [''if'', ''elseif'', ''while'', ''for'', ''foreach'', ''switch'', ''case'',
      ''catch'', ''throw'', ''&&'', ''||'', ''?'', ''do'', ''function'']"

definition analyze_ruby :: "string \<Rightarrow> int" where
  "analyze_ruby code_content = count_complexity_keywords code_content
     [''if'', ''elsif'', ''while'', ''for'', ''case'', ''when'', ''rescue'',
      ''raise'', ''&&'', ''||'', ''?'', ''def'', ''unless'', ''until'']"

definition analyze_generic :: "string \<Rightarrow> int" where
  "analyze_generic code_content = count_complexity_keywords code_content
     [''if'', ''else'', ''while'', ''for'', ''switch'', ''case'', ''catch'',
      ''throw'', ''&&'', ''||'', ''?'', ''function'', ''def'']"

section \<open>The syntax tree and visit\_python\_node\<close>

text \<open>
  \<open>ast.parse\<close> belongs to the Python library. Its result is a tree of nodes, each of
  one node class. \<open>visit_python_node\<close> reads the class of a node, the operands of a
  \<open>BoolOp\<close>, the generators of the four comprehension forms with their \<open>ifs\<close>, and
  the children \<open>ast.iter_child_nodes\<close> yields (the fields that hold nodes, in the order
  of the fields). The datatype keeps exactly that:
  \<^item> \<open>Node cls children\<close> is a node of a class whose fields the visitor does not read,
    with its children; the classes the visitor tests for are constructors of
    \<open>node_class\<close>, and so are \<open>AsyncFunctionDef\<close> (an \<open>async def\<close>) and \<open>TryStar\<close>
    (a \<open>try\<close> with \<open>except*\<close> clauses), which the library keeps apart from
    \<open>FunctionDef\<close> and \<open>Try\<close>; every other class (\<open>Module\<close>, \<open>Pass\<close>,
    \<open>Name\<close>, ...) is \<open>OtherClass\<close> with its name;
  \<^item> \<open>BoolOp op v1 v2 vs\<close> has the operator node \<open>op\<close> and the operands
    \<open>values = v1 # v2 # vs\<close>: the grammar gives a boolean operation two operands
    at least;
  \<^item> \<open>ListComp elt generators\<close>, \<open>SetComp\<close>, \<open>GeneratorExp\<close> and
    \<open>DictComp key value generators\<close> hold their \<open>comprehension\<close> clauses, and a
    clause is \<open>Comprehension target iter ifs is_async\<close>.
\<close>

datatype node_class =
    FunctionDef | AsyncFunctionDef | Lambda | If | While | For | AsyncFor
  | Try | TryStar | ExceptHandler | IfExp
  | OtherClass string

datatype node =
    Node node_class "node list"
  | BoolOp node node node "node list"
  | ListComp node "comprehension list"
  | DictComp node node "comprehension list"
  | SetComp node "comprehension list"
  | GeneratorExp node "comprehension list"
and comprehension =
    Comprehension node node "node list" bool

text \<open>The calculator object: its one field is \<open>self.complexity\<close>.\<close>

record calculator =
  complexity :: int

text \<open>
  The visitor calls itself once for each level of the tree, and the interpreter bounds
  the depth of calls: a call beyond the bound raises \<open>RecursionError\<close>, which leaves
  the visitor at once. \<open>Done\<close> is a visit that returned and \<open>Raised\<close> one that the
  error ended, each with the calculator object as it is at that moment.
\<close>

datatype outcome = Done calculator | Raised calculator

text \<open>
  The loop \<open>for generator in node.generators\<close> of the comprehension branch: a
  non-empty \<open>generator.ifs\<close> adds its length.
\<close>

fun generator_ifs :: "comprehension list \<Rightarrow> calculator \<Rightarrow> calculator" where
  "generator_ifs [] self = self"
| "generator_ifs (Comprehension target iter ifs is_async # generators) self =
     generator_ifs generators
       (if ifs \<noteq> [] then self\<lparr>complexity := complexity self + int (length ifs)\<rparr> else self)"

text \<open>
  \<open>visit_python_node\<close> updates \<open>self.complexity\<close> by the class of the node and then
  visits the children in order; \<open>visit_children\<close> is that loop over a list of nodes.
  A \<open>comprehension\<close> clause is itself a node, of none of the classes tested, and its
  children are \<open>target\<close>, \<open>iter\<close> and the \<open>ifs\<close>.
  \<open>depth\<close> is the number of further nested calls the interpreter allows below the
  call at hand: with \<open>depth = 0\<close> the call \<open>self.visit_python_node(child)\<close> raises.
\<close>

fun visit_python_node :: "nat \<Rightarrow> node \<Rightarrow> calculator \<Rightarrow> outcome"
and visit_children :: "nat \<Rightarrow> node list \<Rightarrow> calculator \<Rightarrow> outcome"
and visit_comprehension :: "nat \<Rightarrow> comprehension \<Rightarrow> calculator \<Rightarrow> outcome"
and visit_comprehensions :: "nat \<Rightarrow> comprehension list \<Rightarrow> calculator \<Rightarrow> outcome" where
  "visit_python_node depth (Node cls children) self =
     visit_children depth children
       (if cls = FunctionDef then self\<lparr>complexity := complexity self + 1\<rparr>
        else if cls \<in> set [If, While, For, AsyncFor] then self\<lparr>complexity := complexity self + 1\<rparr>
        else if cls \<in> set [ExceptHandler, Try] then self\<lparr>complexity := complexity self + 1\<rparr>
        else if cls = IfExp then self\<lparr>complexity := complexity self + 1\<rparr>
        else if cls = Lambda then self\<lparr>complexity := complexity self + 1\<rparr>
        else self)"
| "visit_python_node depth (BoolOp op v1 v2 vs) self =
     (let self = self\<lparr>complexity := complexity self + (int (length (v1 # v2 # vs)) - 1)\<rparr>
      in if depth = 0 then Raised self
         else case visit_python_node (depth - 1) op self of
                Raised self \<Rightarrow> Raised self
              | Done self \<Rightarrow>
           (case visit_python_node (depth - 1) v1 self of
                Raised self \<Rightarrow> Raised self
              | Done self \<Rightarrow>
           (case visit_python_node (depth - 1) v2 self of
                Raised self \<Rightarrow> Raised self
              | Done self \<Rightarrow> visit_children depth vs self)))"
| "visit_python_node depth (ListComp elt generators) self =
     (let self = generator_ifs generators self
      in if depth = 0 then Raised self
         else case visit_python_node (depth - 1) elt self of
                Raised self \<Rightarrow> Raised self
              | Done self \<Rightarrow> visit_comprehensions depth generators self)"
| "visit_python_node depth (DictComp key val generators) self =
     (let self = generator_ifs generators self
      in if depth = 0 then Raised self
         else case visit_python_node (depth - 1) key self of
                Raised self \<Rightarrow> Raised self
              | Done self \<Rightarrow>
           (case visit_python_node (depth - 1) val self of
                Raised self \<Rightarrow> Raised self
              | Done self \<Rightarrow> visit_comprehensions depth generators self))"
| "visit_python_node depth (SetComp elt generators) self =
     (let self = generator_ifs generators self
      in if depth = 0 then Raised self
         else case visit_python_node (depth - 1) elt self of
                Raised self \<Rightarrow> Raised self
              | Done self \<Rightarrow> visit_comprehensions depth generators self)"
| "visit_python_node depth (GeneratorExp elt generators) self =
     (let self = generator_ifs generators self
      in if depth = 0 then Raised self
         else case visit_python_node (depth - 1) elt self of
                Raised self \<Rightarrow> Raised self
              | Done self \<Rightarrow> visit_comprehensions depth generators self)"
| "visit_children depth [] self = Done self"
| "visit_children depth (child # children) self =
     (if depth = 0 then Raised self
      else case visit_python_node (depth - 1) child self of
             Raised self \<Rightarrow> Raised self
           | Done self \<Rightarrow> visit_children depth children self)"
| "visit_comprehension depth (Comprehension target iter ifs is_async) self =
     (if depth = 0 then Raised self
      else case visit_python_node (depth - 1) target self of
             Raised self \<Rightarrow> Raised self
           | Done self \<Rightarrow>
        (case visit_python_node (depth - 1) iter self of
             Raised self \<Rightarrow> Raised self
           | Done self \<Rightarrow> visit_children depth ifs self))"
| "visit_comprehensions depth [] self = Done self"
| "visit_comprehensions depth (g # generators) self =
     (if depth = 0 then Raised self
      else case visit_comprehension (depth - 1) g self of
             Raised self \<Rightarrow> Raised self
           | Done self \<Rightarrow> visit_comprehensions depth generators self)"

text \<open>
  \<open>analyze_python\<close>, with the library parser and the depth the interpreter allows
  below the first call of the visitor as parameters. \<open>parse code_content\<close> is \<open>None\<close>
  when \<open>ast.parse\<close> raises, and the tree otherwise. The bare \<open>except\<close> returns 0
  for an error of the parser, which leaves the object untouched, and for a
  \<open>RecursionError\<close> of the visitor, which leaves the object as far as the visit got.
\<close>

definition analyze_python ::
  "(string \<Rightarrow> node option) \<Rightarrow> nat \<Rightarrow> string \<Rightarrow> calculator \<Rightarrow> int \<times> calculator" where
  "analyze_python parse depth code_content self =
     (case parse code_content of
        None \<Rightarrow> (0, self)
      | Some tree \<Rightarrow>
          (let self = self\<lparr>complexity := 1\<rparr>
           in case visit_python_node depth tree self of
                Raised self \<Rightarrow> (0, self)
              | Done self \<Rightarrow> (complexity self, self)))"

section \<open>calculate\_complexity\<close>

text \<open>
  \<open>os.path.splitext(p)[1]\<close> of the library, for POSIX paths: the extension starts at
  the last dot, if that dot lies behind the last slash and some character between the
  two is not a dot; otherwise it is empty. \<open>rfind\<close> is the index of the last
  occurrence, or \<open>-1\<close>.
\<close>

definition rfind :: "char \<Rightarrow> string \<Rightarrow> int" where
  "rfind c p =
     (if c \<in> set p then int (length p) - 1 - int (length (takeWhile (\<lambda>x. x \<noteq> c) (rev p)))
      else - 1)"

definition splitext_ext :: "string \<Rightarrow> string" where
  "splitext_ext p =
     (let sepIndex = rfind slash p;
          dotIndex = rfind dot p
      in if dotIndex > sepIndex
            \<and> list_ex (\<lambda>x. x \<noteq> dot)
                 (take (nat (dotIndex - (sepIndex + 1))) (drop (nat (sepIndex + 1)) p))
         then drop (nat dotIndex) p
         else [])"

text \<open>
  The dispatch on the extension. The result is the returned integer together with the
  calculator object after the call; only the Python branch writes to the object.
\<close>

definition calculate_complexity ::
  "(string \<Rightarrow> node option) \<Rightarrow> nat \<Rightarrow> string \<Rightarrow> string \<Rightarrow> calculator
     \<Rightarrow> int \<times> calculator" where
  "calculate_complexity parse depth file_path code_content self =
     (let ext = splitext_ext (lower file_path)
      in if ext = ''.py'' then analyze_python parse depth code_content self
         else if ext \<in> set [''.java''] then (analyze_java code_content, self)
         else if ext \<in> set [''.js'', ''.jsx'', ''.ts'', ''.tsx'']
           then (analyze_javascript code_content, self)
         else if ext \<in> set [''.c'', ''.cpp'', ''.cc'', ''.cxx'', ''.h'', ''.hpp'']
           then (analyze_c_cpp code_content, self)
         else if ext = ''.go'' then (analyze_go code_content, self)
         else if ext \<in> set [''.cs''] then (analyze_csharp code_content, self)
         else if ext \<in> set [''.php''] then (analyze_php code_content, self)
         else if ext \<in> set [''.rb''] then (analyze_ruby code_content, self)
         else (analyze_generic code_content, self))"

section \<open>calculate\_energy\_consumption\<close>

text \<open>
  The samples and the duration are floating-point numbers, and every operation of the
  function is one of the interpreter's operations on them. They are parameters here, as
  the parser is: \<open>'f\<close> is the type of the numbers, \<open>f_of_int\<close> the conversion of an
  integer (taken where an integer meets a float, as in \<open>avg_cpu / 100\<close>; \<open>0.0\<close> is
  \<open>f_of_int 0\<close>), \<open>f_sum\<close> the builtin \<open>sum\<close> over the numbers of a list,
  \<open>f_add\<close>, \<open>f_mul\<close> and \<open>f_div\<close> the operators \<open>+\<close>, \<open>*\<close> and \<open>/\<close>, and
  \<open>f_round x n\<close> the builtin \<open>round(x, n)\<close>.
\<close>

record 'f float_ops =
  f_of_int :: "int \<Rightarrow> 'f"
  f_sum :: "'f list \<Rightarrow> 'f"
  f_add :: "'f \<Rightarrow> 'f \<Rightarrow> 'f"
  f_mul :: "'f \<Rightarrow> 'f \<Rightarrow> 'f"
  f_div :: "'f \<Rightarrow> 'f \<Rightarrow> 'f"
  f_round :: "'f \<Rightarrow> int \<Rightarrow> 'f"

text \<open>A sample, the dictionary with the keys \<open>cpu_percent\<close> and \<open>memory_mb\<close>.\<close>

record 'f sample =
  cpu_percent :: 'f
  memory_mb :: 'f

text \<open>The function, line by line; \<open>samples\<close> is \<open>self.samples\<close>.\<close>

definition calculate_energy_consumption ::
  "'f float_ops \<Rightarrow> 'f sample list \<Rightarrow> 'f \<Rightarrow> 'f" where
  "calculate_energy_consumption ops samples duration =
     (if samples = [] then f_of_int ops 0
      else
        let avg_cpu = f_div ops (f_sum ops (map cpu_percent samples))
                                (f_of_int ops (int (length samples)));
            avg_memory = f_div ops (f_sum ops (map memory_mb samples))
                                   (f_of_int ops (int (length samples)));
            base_power = f_of_int ops 5;
            cpu_power = f_mul ops (f_div ops avg_cpu (f_of_int ops 100)) (f_of_int ops 30);
            memory_power = f_mul ops (f_div ops avg_memory (f_of_int ops 1000)) (f_of_int ops 2);
            total_power = f_add ops (f_add ops base_power cpu_power) memory_power;
            energy_wh = f_div ops (f_mul ops total_power duration) (f_of_int ops 3600)
        in f_round ops energy_wh 6)"

section \<open>The properties, as the specification words them\<close>

subsection \<open>The sum over the syntax tree\<close>



text \<open>
  The full traversal: \<open>walk tree\<close> lists the tree's nodes, each once, the nodes below
  the comprehension clauses included.
\<close>

fun walk :: "node \<Rightarrow> node list"
and walk_list :: "node list \<Rightarrow> node list"
and walk_comprehension :: "comprehension \<Rightarrow> node list"
and walk_comprehensions :: "comprehension list \<Rightarrow> node list" where
  "walk (Node cls children) = Node cls children # walk_list children"
| "walk (BoolOp op v1 v2 vs) =
     BoolOp op v1 v2 vs # walk op @ walk v1 @ walk v2 @ walk_list vs"
| "walk (ListComp elt generators) =
     ListComp elt generators # walk elt @ walk_comprehensions generators"
| "walk (DictComp key val generators) =
     DictComp key val generators # walk key @ walk val @ walk_comprehensions generators"
| "walk (SetComp elt generators) =
     SetComp elt generators # walk elt @ walk_comprehensions generators"
| "walk (GeneratorExp elt generators) =
     GeneratorExp elt generators # walk elt @ walk_comprehensions generators"
| "walk_list [] = []"
| "walk_list (child # children) = walk child @ walk_list children"
| "walk_comprehension (Comprehension target iter ifs is_async) =
     walk target @ walk iter @ walk_list ifs"
| "walk_comprehensions [] = []"
| "walk_comprehensions (g # generators) = walk_comprehension g @ walk_comprehensions generators"

text \<open>
  The number of levels of a tree, which is the number of nested calls a full visit
  makes; a comprehension clause is a level of its own.
\<close>

fun height :: "node \<Rightarrow> nat"
and height_list :: "node list \<Rightarrow> nat"
and height_comprehension :: "comprehension \<Rightarrow> nat"
and height_comprehensions :: "comprehension list \<Rightarrow> nat" where
  "height (Node cls children) = Suc (height_list children)"
| "height (BoolOp op v1 v2 vs) =
     Suc (max (height op) (max (height v1) (max (height v2) (height_list vs))))"
| "height (ListComp elt generators) = Suc (max (height elt) (height_comprehensions generators))"
| "height (DictComp key val generators) =
     Suc (max (height key) (max (height val) (height_comprehensions generators)))"
| "height (SetComp elt generators) = Suc (max (height elt) (height_comprehensions generators))"
| "height (GeneratorExp elt generators) =
     Suc (max (height elt) (height_comprehensions generators))"
| "height_list [] = 0"
| "height_list (child # children) = max (height child) (height_list children)"
| "height_comprehension (Comprehension target iter ifs is_async) =
     Suc (max (height target) (max (height iter) (height_list ifs)))"
| "height_comprehensions [] = 0"
| "height_comprehensions (g # generators) =
     max (height_comprehension g) (height_comprehensions generators)"

subsection \<open>What the visitor adds\<close>

text \<open>
  What the branches of \<open>visit_python_node\<close> add for one node, whether a visit was
  ended by the error, and the calculator object with \<open>k\<close> added to its field.
\<close>

fun visitor_adds :: "node \<Rightarrow> int" where
  "visitor_adds (Node cls children) =
     (if cls \<in> set [FunctionDef, If, While, For, AsyncFor, ExceptHandler, Try, IfExp, Lambda]
      then 1 else 0)"
| "visitor_adds (BoolOp op v1 v2 vs) = int (length (v1 # v2 # vs)) - 1"
| "visitor_adds (ListComp elt generators) =
     (\<Sum>g\<leftarrow>generators. case g of Comprehension target iter ifs is_async \<Rightarrow> int (length ifs))"
| "visitor_adds (DictComp key val generators) =
     (\<Sum>g\<leftarrow>generators. case g of Comprehension target iter ifs is_async \<Rightarrow> int (length ifs))"
| "visitor_adds (SetComp elt generators) =
     (\<Sum>g\<leftarrow>generators. case g of Comprehension target iter ifs is_async \<Rightarrow> int (length ifs))"
| "visitor_adds (GeneratorExp elt generators) =
     (\<Sum>g\<leftarrow>generators. case g of Comprehension target iter ifs is_async \<Rightarrow> int (length ifs))"


definition added :: "calculator \<Rightarrow> int \<Rightarrow> calculator" where
  "added self k = self\<lparr>complexity := complexity self + k\<rparr>"

subsection \<open>A text that mentions no keyword\<close>



subsection \<open>The energy estimate\<close>

text \<open>
  The average of a list of readings, and the estimate the specification gives for two
  averages and a duration:
  \<open>((5 + avg_cpu / 100 * 30 + avg_memory / 1000 * 2) * duration) / 3600\<close>, rounded to
  6 digits.
\<close>

definition average :: "'f float_ops \<Rightarrow> 'f list \<Rightarrow> 'f" where
  "average ops xs = f_div ops (f_sum ops xs) (f_of_int ops (int (length xs)))"

definition energy_estimate :: "'f float_ops \<Rightarrow> 'f \<Rightarrow> 'f \<Rightarrow> 'f \<Rightarrow> 'f" where
  "energy_estimate ops avg_cpu avg_memory duration =
     f_round ops
       (f_div ops
          (f_mul ops
             (f_add ops
                (f_add ops (f_of_int ops 5)
                   (f_mul ops (f_div ops avg_cpu (f_of_int ops 100)) (f_of_int ops 30)))
                (f_mul ops (f_div ops avg_memory (f_of_int ops 1000)) (f_of_int ops 2)))
             duration)
          (f_of_int ops 3600))
       6"

text \<open>
  What monotonicity of the estimate rests on: addition is monotone in both arguments,
  multiplication by a non-negative and division by a positive number are monotone,
  rounding is monotone, and a positive integer converts to a positive number. Correctly
  rounded floating-point operations on finite numbers have these properties.
\<close>

definition monotone_ops :: "('f::preorder) float_ops \<Rightarrow> bool" where
  "monotone_ops ops \<longleftrightarrow>
     (\<forall>a b c d. a \<le> b \<and> c \<le> d \<longrightarrow> f_add ops a c \<le> f_add ops b d)
   \<and> (\<forall>a b c. f_of_int ops 0 \<le> c \<and> a \<le> b \<longrightarrow> f_mul ops a c \<le> f_mul ops b c)
   \<and> (\<forall>a b c. f_of_int ops 0 < c \<and> a \<le> b \<longrightarrow> f_div ops a c \<le> f_div ops b c)
   \<and> (\<forall>a b n. a \<le> b \<longrightarrow> f_round ops a n \<le> f_round ops b n)
   \<and> (\<forall>i. 0 < i \<longrightarrow> f_of_int ops 0 < f_of_int ops i)"

text \<open>Exact arithmetic on the reals is one instance of the operations.\<close>

definition real_ops :: "real float_ops" where
  "real_ops =
     \<lparr>f_of_int = of_int, f_sum = sum_list, f_add = (+), f_mul = (*), f_div = (/),
      f_round = (\<lambda>x n. of_int (round (x * 10 ^ nat n)) / 10 ^ nat n)\<rparr>"

subsection \<open>Texts that stripping leaves unchanged\<close>

text \<open>
  Four shapes of a text, one for each kind of pass: no two slashes in a row; no
  \<open>/*\<close> that has a \<open>*/\<close> behind it; and, for a quote character \<open>q\<close>, the quotes
  come in adjacent pairs, but for one last single quote that may follow them.
\<close>

fun no_slash2 :: "string \<Rightarrow> bool" where
  "no_slash2 [] = True"
| "no_slash2 [c] = True"
| "no_slash2 (c # d # cs) = (\<not> (c = slash \<and> d = slash) \<and> no_slash2 (d # cs))"

fun no_block :: "string \<Rightarrow> bool" where
  "no_block [] = True"
| "no_block [c] = True"
| "no_block (c # d # cs) = (\<not> (c = slash \<and> d = star \<and> after_close cs \<noteq> None) \<and> no_block (d # cs))"

fun quote_normal :: "char \<Rightarrow> string \<Rightarrow> bool" where
  "quote_normal q [] = True"
| "quote_normal q [c] = True"
| "quote_normal q (c # d # cs) =
     (if c = q then (if d = q then quote_normal q cs else q \<notin> set cs)
      else quote_normal q (d # cs))"

definition stripped :: "string \<Rightarrow> bool" where
  "stripped t \<longleftrightarrow>
     no_slash2 t \<and> hash \<notin> set t \<and> no_block t \<and>
     quote_normal dquote t \<and> quote_normal squote t \<and> quote_normal backtick t"

subsection \<open>A literal or a comment in a text\<close>

text \<open>
  Where in a text a literal or a block comment can begin. \<open>last_line s\<close> is the part
  of \<open>s\<close> behind its last newline. \<open>blocks_closed s\<close>: read from the left, every
  \<open>/*\<close> of \<open>s\<close> has its \<open>*/\<close>.
\<close>

definition last_line :: "string \<Rightarrow> string" where
  "last_line s = rev (takeWhile (\<lambda>x. x \<noteq> newline) (rev s))"

function blocks_closed :: "string \<Rightarrow> bool" where
  "blocks_closed [] = True"
| "blocks_closed [c] = True"
| "blocks_closed (c # d # cs) =
     (if c = slash \<and> d = star
      then (case after_close cs of None \<Rightarrow> False | Some r \<Rightarrow> blocks_closed r)
      else blocks_closed (d # cs))"
  by pat_completeness auto
termination
proof -
  have shorter: "after_close cs = Some r \<Longrightarrow> length r < length cs" for cs r
    by (induction cs arbitrary: r rule: after_close.induct) (auto split: if_splits)
  show ?thesis
    by (relation "measure length") (auto dest: shorter)
qed

text \<open>
  \<open>comments_closed pre\<close>: behind \<open>pre\<close> no comment is open. The last line of
  \<open>pre\<close> has no \<open>//\<close> and no \<open>#\<close>, and the block comments of \<open>pre\<close> are
  closed, in the text that is left of \<open>pre\<close> without its line comments.
\<close>

definition comments_closed :: "string \<Rightarrow> bool" where
  "comments_closed pre \<longleftrightarrow>
     no_slash2 (last_line pre) \<and> hash \<notin> set (last_line pre)
     \<and> blocks_closed (sub_hash_comments (sub_slash_comments pre))"

text \<open>
  \<open>quotes_paired q pre\<close>: the quotes of \<open>pre\<close> outside its comments pair up, for
  each kind of quote that is replaced up to the kind \<open>q\<close>, in the order of the passes:
  the double quotes; for a literal in single quotes or backticks also the single quotes
  that are left once the literals in double quotes are emptied; for a literal in
  backticks also the backticks that are left after that.
\<close>

definition quotes_paired :: "char \<Rightarrow> string \<Rightarrow> bool" where
  "quotes_paired q pre \<longleftrightarrow>
     (let code = sub_block_comments (sub_hash_comments (sub_slash_comments pre))
      in even (count_list code dquote)
         \<and> (q = dquote \<or> even (count_list (sub_quoted dquote code) squote))
         \<and> (q \<noteq> backtick
              \<or> even (count_list (sub_quoted squote (sub_quoted dquote code)) backtick)))"

text \<open>
  \<open>literal_body q body\<close>: the body of a literal in quotes \<open>q\<close> has no slash, no
  hash, no quote \<open>q\<close> and no quote of a kind that is replaced before \<open>q\<close>.
  \<open>line_ends post\<close>: \<open>post\<close> is empty or begins with a newline, so that what stands
  before it runs to the end of its line.
\<close>

definition literal_body :: "char \<Rightarrow> string \<Rightarrow> bool" where
  "literal_body q body \<longleftrightarrow>
     slash \<notin> set body \<and> hash \<notin> set body \<and> q \<notin> set body
     \<and> (q = dquote \<or> dquote \<notin> set body)
     \<and> (q \<noteq> backtick \<or> squote \<notin> set body)"

definition line_ends :: "string \<Rightarrow> bool" where
  "line_ends post \<longleftrightarrow> (case post of [] \<Rightarrow> True | c # cs \<Rightarrow> c = newline)"

subsection \<open>Concrete inputs\<close>

text \<open>
  A function whose body holds one \<open>if\<close> and one \<open>while\<close>, and the tree
  \<open>ast.parse\<close> builds for it: the module, the function definition with its
  \<open>arguments\<close>, and the two statements, each with its test (a \<open>Name\<close> with its
  \<open>Load\<close> context) and a \<open>Pass\<close>.
\<close>

definition example_function_text :: string where
  "example_function_text =
     ''def f(x):'' @ [newline] @ '' if x: pass'' @ [newline] @ '' while x: pass'' @ [newline]"

definition example_function_tree :: node where
  "example_function_tree =
     Node (OtherClass ''Module'')
       [Node FunctionDef
          [Node (OtherClass ''arguments'') [Node (OtherClass ''arg'') []],
           Node If [Node (OtherClass ''Name'') [Node (OtherClass ''Load'') []],
                    Node (OtherClass ''Pass'') []],
           Node While [Node (OtherClass ''Name'') [Node (OtherClass ''Load'') []],
                       Node (OtherClass ''Pass'') []]]]"

text \<open>The asynchronous function \<open>async def f(): pass\<close> and its tree.\<close>

definition example_async_tree :: node where
  "example_async_tree =
     Node (OtherClass ''Module'')
       [Node AsyncFunctionDef
          [Node (OtherClass ''arguments'') [], Node (OtherClass ''Pass'') []]]"

text \<open>
  The library parser at the texts used as concrete inputs below: the empty text is an
  empty module, \<open>pass\<close> is a module of one \<open>Pass\<close>, the two functions have the trees
  above. A text with an unclosed parenthesis, \<open>(\<close>, is a syntax error. The definition
  stands for \<open>ast.parse\<close> at these five texts only.
\<close>

definition example_parse :: "string \<Rightarrow> node option" where
  "example_parse code_content =
     (if code_content = [] then Some (Node (OtherClass ''Module'') [])
      else if code_content = ''pass''
        then Some (Node (OtherClass ''Module'') [Node (OtherClass ''Pass'') []])
      else if code_content = example_function_text then Some example_function_tree
      else if code_content = ''async def f(): pass'' then Some example_async_tree
      else None)"

section \<open>Stripping reaches a fixed point\<close>

subsection \<open>Line comments\<close>

lemma no_slash2_Cons: "c \<noteq> slash \<Longrightarrow> no_slash2 (c # cs) = no_slash2 cs"
  by (cases cs) auto

lemma no_slash2_tl: "no_slash2 (c # cs) \<Longrightarrow> no_slash2 cs"
  by (cases cs) auto

lemma no_slash2_dropWhile: "no_slash2 cs \<Longrightarrow> no_slash2 (dropWhile P cs)"
  by (induction cs) (auto dest: no_slash2_tl)

lemma sub_slash_keep: "c \<noteq> slash \<Longrightarrow> sub_slash_comments (c # cs) = c # sub_slash_comments cs"
  by (cases cs) auto

lemma sub_slash_normal: "no_slash2 (sub_slash_comments s)"
proof (induction s rule: sub_slash_comments.induct)
  case (3 c d cs)
  show ?case
  proof (cases "c = slash \<and> d = slash")
    case True
    with 3 show ?thesis by simp
  next
    case False
    show ?thesis
    proof (cases "c = slash")
      case True
      with False have "d \<noteq> slash" by simp
      with 3 False True show ?thesis by (simp add: sub_slash_keep)
    next
      case c: False
      with 3 False show ?thesis by (simp add: no_slash2_Cons)
    qed
  qed
qed simp_all

lemma sub_slash_fixed: "no_slash2 t \<Longrightarrow> sub_slash_comments t = t"
  by (induction t rule: sub_slash_comments.induct) auto

lemma sub_hash_no_hash: "hash \<notin> set (sub_hash_comments s)"
  by (induction s rule: sub_hash_comments.induct) auto

lemma sub_hash_fixed: "hash \<notin> set t \<Longrightarrow> sub_hash_comments t = t"
  by (induction t) auto

lemma sub_hash_nil_or_hd:
  "sub_hash_comments s = [] \<or> hd (sub_hash_comments s) = newline \<or> (s \<noteq> [] \<and> hd (sub_hash_comments s) = hd s)"
proof (induction s rule: sub_hash_comments.induct)
  case 1 show ?case by simp
next
  case (2 c cs)
  show ?case
  proof (cases "c = hash")
    case False then show ?thesis by simp
  next
    case True
    let ?r = "dropWhile (\<lambda>x. x \<noteq> newline) cs"
    have r: "?r = [] \<or> hd ?r = newline"
      using hd_dropWhile [of "\<lambda>x. x \<noteq> newline" cs] by auto
    from 2(1) True have "sub_hash_comments ?r = [] \<or> hd (sub_hash_comments ?r) = newline \<or> (?r \<noteq> [] \<and> hd (sub_hash_comments ?r) = hd ?r)"
      by simp
    with r True show ?thesis by auto
  qed
qed

lemma no_slash2_hd: "no_slash2 (c # cs) \<Longrightarrow> c = slash \<Longrightarrow> cs \<noteq> [] \<Longrightarrow> hd cs \<noteq> slash"
  by (cases cs) auto

lemma no_slash2_ConsI: "no_slash2 cs \<Longrightarrow> (c = slash \<Longrightarrow> cs \<noteq> [] \<Longrightarrow> hd cs \<noteq> slash) \<Longrightarrow> no_slash2 (c # cs)"
  by (cases cs) auto

lemma sub_hash_no_slash2: "no_slash2 t \<Longrightarrow> no_slash2 (sub_hash_comments t)"
proof (induction t rule: sub_hash_comments.induct)
  case 1 show ?case by simp
next
  case (2 c cs)
  show ?case
  proof (cases "c = hash")
    case True
    with 2 show ?thesis by (simp add: no_slash2_dropWhile no_slash2_tl)
  next
    case False
    from 2(3) have cs: "no_slash2 cs" by (rule no_slash2_tl)
    with 2(2) False have ih: "no_slash2 (sub_hash_comments cs)" by simp
    have "no_slash2 (c # sub_hash_comments cs)"
    proof (rule no_slash2_ConsI [OF ih])
      assume c: "c = slash" and ne: "sub_hash_comments cs \<noteq> []"
      from ne have "cs \<noteq> []" by auto
      with 2(3) c have "hd cs \<noteq> slash" by (rule_tac no_slash2_hd) auto
      with sub_hash_nil_or_hd [of cs] ne show "hd (sub_hash_comments cs) \<noteq> slash" by auto
    qed
    with False show ?thesis by simp
  qed
qed

subsection \<open>Block comments\<close>

lemma after_close_suffix: "after_close cs = Some r \<Longrightarrow> \<exists>u. cs = u @ r"
proof (induction cs arbitrary: r rule: after_close.induct)
  case (3 c d cs)
  show ?case
  proof (cases "c = star \<and> d = slash")
    case True
    with 3(2) have "c # d # cs = [c, d] @ r" by simp
    then show ?thesis by blast
  next
    case False
    with 3 obtain u where "d # cs = u @ r" by auto
    then have "c # d # cs = (c # u) @ r" by simp
    then show ?thesis by blast
  qed
qed simp_all

lemma no_slash2_append: "no_slash2 (u @ r) \<Longrightarrow> no_slash2 r"
  by (induction u) (auto dest: no_slash2_tl)

lemma after_close_tl_None: "after_close (c # cs) = None \<Longrightarrow> after_close cs = None"
  by (cases cs) (auto split: if_splits)

lemma sub_block_keep: "c \<noteq> slash \<Longrightarrow> sub_block_comments (c # cs) = c # sub_block_comments cs"
  by (cases cs) auto

lemma sub_block_no_close: "after_close cs = None \<Longrightarrow> sub_block_comments cs = cs"
proof (induction cs rule: sub_block_comments.induct)
  case (3 c d cs)
  from 3(4) have d: "after_close (d # cs) = None" by (rule after_close_tl_None)
  then have cs: "after_close cs = None" by (rule after_close_tl_None)
  show ?case
  proof (cases "c = slash \<and> d = star")
    case True
    from 3(1) [OF True cs d] True cs show ?thesis by simp
  next
    case False
    from 3(3) [OF False d] False show ?thesis by auto
  qed
qed simp_all

lemma sub_block_subset: "set (sub_block_comments s) \<subseteq> set s"
proof (induction s rule: sub_block_comments.induct)
  case (3 c d cs)
  show ?case
  proof (cases "c = slash \<and> d = star")
    case False
    with 3 show ?thesis by auto
  next
    case True
    show ?thesis
    proof (cases "after_close cs")
      case None
      with 3 True show ?thesis by auto
    next
      case (Some r)
      then obtain u where "cs = u @ r" using after_close_suffix by blast
      then have "set r \<subseteq> set cs" by auto
      with 3(2) [OF True Some] True Some show ?thesis by auto
    qed
  qed
qed simp_all

lemma sub_block_no_slash2: "no_slash2 t \<Longrightarrow> no_slash2 (sub_block_comments t)"
proof (induction t rule: sub_block_comments.induct)
  case (3 c d cs)
  from 3(4) have dcs: "no_slash2 (d # cs)" by (rule no_slash2_tl)
  show ?case
  proof (cases "c = slash \<and> d = star")
    case True
    show ?thesis
    proof (cases "after_close cs")
      case None
      from 3(1) [OF True None dcs] True None show ?thesis by (simp add: sub_block_keep)
    next
      case (Some r)
      then obtain u where "cs = u @ r" using after_close_suffix by blast
      with dcs have "no_slash2 r" using no_slash2_append [of "d # u" r] by simp
      from 3(2) [OF True Some this] True Some show ?thesis by simp
    qed
  next
    case False
    with 3(3) dcs have ih: "no_slash2 (sub_block_comments (d # cs))" by simp
    show ?thesis
    proof (cases "c = slash")
      case c: False
      with ih False show ?thesis by (simp add: no_slash2_Cons)
    next
      case c: True
      with 3(4) have "d \<noteq> slash" by simp
      with ih False c show ?thesis by (simp add: sub_block_keep)
    qed
  qed
qed simp_all

lemma no_block_Cons: "c \<noteq> slash \<Longrightarrow> no_block (c # cs) = no_block cs"
  by (cases cs) auto

lemma sub_block_normal: "no_slash2 t \<Longrightarrow> no_block (sub_block_comments t)"
proof (induction t rule: sub_block_comments.induct)
  case (3 c d cs)
  from 3(4) have dcs: "no_slash2 (d # cs)" by (rule no_slash2_tl)
  show ?case
  proof (cases "c = slash \<and> d = star")
    case True
    show ?thesis
    proof (cases "after_close cs")
      case None
      from 3(1) [OF True None dcs] have "no_block (sub_block_comments (d # cs))" .
      with True None show ?thesis by (simp add: sub_block_keep sub_block_no_close)
    next
      case (Some r)
      then obtain u where "cs = u @ r" using after_close_suffix by blast
      with dcs have "no_slash2 r" using no_slash2_append [of "d # u" r] by simp
      from 3(2) [OF True Some this] True Some show ?thesis by simp
    qed
  next
    case False
    with 3(3) dcs have ih: "no_block (sub_block_comments (d # cs))" by simp
    show ?thesis
    proof (cases "c = slash")
      case c: False
      with ih False show ?thesis by (simp add: no_block_Cons)
    next
      case c: True
      with 3(4) have "d \<noteq> slash" by simp
      moreover from c False have "d \<noteq> star" by simp
      ultimately show ?thesis using ih False c by (simp add: sub_block_keep)
    qed
  qed
qed simp_all

lemma sub_block_fixed: "no_block t \<Longrightarrow> sub_block_comments t = t"
  by (induction t rule: sub_block_comments.induct) auto

subsection \<open>Quoted literals\<close>

lemma sub_quoted_keep: "c \<noteq> q \<Longrightarrow> sub_quoted q (c # cs) = c # sub_quoted q cs"
  by simp

lemma sub_quoted_hd: "\<exists>X. sub_quoted q (c # cs) = c # X"
  by simp

lemma sub_quoted_absent: "q \<notin> set s \<Longrightarrow> sub_quoted q s = s"
  by (induction s) auto

lemma drop_quote_suffix:
  assumes "q \<in> set cs" and "r = tl (dropWhile (\<lambda>x. x \<noteq> q) cs)"
  shows "\<exists>u. cs = u @ q # r"
proof -
  define d where "d = dropWhile (\<lambda>x. x \<noteq> q) cs"
  from assms(1) have ne: "d \<noteq> []" by (simp add: d_def)
  then have "hd d = q"
    using hd_dropWhile [of "\<lambda>x. x \<noteq> q" cs] by (simp add: d_def)
  with ne have "d = q # tl d" by (cases d) auto
  moreover have "r = tl d" using assms(2) by (simp only: d_def)
  ultimately have d: "d = q # r" by (rule_tac ssubst [of r "tl d"])
  have "cs = takeWhile (\<lambda>x. x \<noteq> q) cs @ d"
    by (simp add: d_def)
  then have "cs = takeWhile (\<lambda>x. x \<noteq> q) cs @ q # r" by (simp only: d)
  then show ?thesis by (rule exI)
qed

lemma sub_quoted_subset: "set (sub_quoted q s) \<subseteq> set s"
proof (induction q s rule: sub_quoted.induct)
  case (1 q) show ?case by simp
next
  case (2 q c cs)
  show ?case
  proof (cases "c = q \<and> q \<in> set cs")
    case True
    define r where "r = tl (dropWhile (\<lambda>x. x \<noteq> q) cs)"
    from True have "q \<in> set cs" by (rule conjunct2)
    from drop_quote_suffix [OF this r_def] obtain u where "cs = u @ q # r" by (rule exE)
    then have "set r \<subseteq> set cs" by (simp add: subset_iff)
    moreover from 2(1) [OF True] have "set (sub_quoted q r) \<subseteq> set r"
      by (simp only: r_def)
    ultimately have a: "set (sub_quoted q r) \<subseteq> set cs" by (rule_tac subset_trans)
    from True have b: "sub_quoted q (c # cs) = q # q # sub_quoted q r"
      by (simp add: r_def)
    from True have "q \<in> set (c # cs)" by simp
    with a show ?thesis by (simp only: b) (simp add: subset_iff)
  next
    case False
    then have b: "sub_quoted q (c # cs) = c # sub_quoted q cs"
      by auto
    from 2(2) [OF False] show ?thesis by (simp only: b) (simp add: subset_iff)
  qed
qed

lemma quote_normal_Cons: "c \<noteq> q \<Longrightarrow> quote_normal q (c # cs) = quote_normal q cs"
  by (cases cs) auto

lemma quote_normal_absent: "q \<notin> set cs \<Longrightarrow> quote_normal q (c # cs)"
  by (induction cs arbitrary: c) auto

lemma quote_normal_absent': "q \<notin> set cs \<Longrightarrow> quote_normal q cs"
  by (cases cs) (auto simp: quote_normal_absent)

lemma sub_quoted_normal: "quote_normal q (sub_quoted q s)"
proof (induction q s rule: sub_quoted.induct)
  case (1 q) show ?case by simp
next
  case (2 q c cs)
  show ?case
  proof (cases "c = q \<and> q \<in> set cs")
    case True
    with 2(1) [OF True] show ?thesis by simp
  next
    case False
    show ?thesis
    proof (cases "c = q")
      case True
      with False have "q \<notin> set cs" by simp
      with True show ?thesis by (simp add: sub_quoted_absent quote_normal_absent)
    next
      case c: False
      with 2(2) [OF False] show ?thesis by (simp add: quote_normal_Cons)
    qed
  qed
qed

lemma sub_quoted_lone: "q \<notin> set cs \<Longrightarrow> sub_quoted q (c # cs) = c # cs"
  by (simp add: sub_quoted_absent)

lemma sub_quoted_fixed: "quote_normal q t \<Longrightarrow> sub_quoted q t = t"
proof (induction q t rule: quote_normal.induct)
  case (3 q c d cs)
  show ?case
  proof (cases "c = q")
    case False
    with 3 show ?thesis by simp
  next
    case True
    show ?thesis
    proof (cases "d = q")
      case d: True
      with 3 True show ?thesis by simp
    next
      case d: False
      with 3(3) True have "q \<notin> set (d # cs)" by simp
      then show ?thesis by (rule sub_quoted_lone)
    qed
  qed
qed simp_all

lemma quote_normal_after:
  assumes "q' \<noteq> q"
  shows "(quote_normal q (u @ q' # r) \<longrightarrow> quote_normal q r)
       \<and> (quote_normal q (q # u @ q' # r) \<longrightarrow> quote_normal q r)"
proof (induction u)
  case Nil
  from assms show ?case by (auto simp: quote_normal_Cons quote_normal_absent')
next
  case (Cons a u)
  show ?case
  proof (cases "a = q")
    case True
    with Cons show ?thesis by simp
  next
    case False
    with Cons show ?thesis by (auto simp: quote_normal_Cons quote_normal_absent')
  qed
qed

lemma sub_quoted_other_normal:
  "q' \<noteq> q \<Longrightarrow>
     (quote_normal q t \<longrightarrow> quote_normal q (sub_quoted q' t))
   \<and> (quote_normal q (q # t) \<longrightarrow> quote_normal q (q # sub_quoted q' t))"
proof (induction q' t rule: sub_quoted.induct)
  case (1 q') show ?case by simp
next
  case (2 q' c cs)
  note assms = 2(3)
  show ?case
  proof (cases "c = q' \<and> q' \<in> set cs")
    case True
    define r where "r = tl (dropWhile (\<lambda>x. x \<noteq> q') cs)"
    from True have "q' \<in> set cs" by (rule conjunct2)
    from drop_quote_suffix [OF this r_def] obtain u where u: "cs = u @ q' # r" by (rule exE)
    have sub: "sub_quoted q' (c # cs) = q' # q' # sub_quoted q' r"
      using True by (simp add: r_def)
    from 2(1) [OF True assms] have ih: "quote_normal q r \<longrightarrow> quote_normal q (sub_quoted q' r)"
      by (simp add: r_def)
    have p1: "quote_normal q (c # cs) \<longrightarrow> quote_normal q (sub_quoted q' (c # cs))"
    proof
      assume "quote_normal q (c # cs)"
      moreover from True have "c = q'" by (rule conjunct1)
      moreover from assms have "quote_normal q (q' # cs) = quote_normal q cs"
        by (rule quote_normal_Cons)
      ultimately have "quote_normal q cs" by simp
      then have "quote_normal q (u @ q' # r)" using u by simp
      with quote_normal_after [OF assms, of u r] have "quote_normal q r" by simp
      with ih have "quote_normal q (sub_quoted q' r)" by simp
      with assms show "quote_normal q (sub_quoted q' (c # cs))"
        unfolding sub by (simp add: quote_normal_Cons)
    qed
    have p2: "quote_normal q (q # c # cs) \<longrightarrow> quote_normal q (q # sub_quoted q' (c # cs))"
    proof
      assume "quote_normal q (q # c # cs)"
      with True assms have "q \<notin> set cs" by simp
      with u have "q \<notin> set r" by auto
      with sub_quoted_subset [of q' r] have "q \<notin> set (sub_quoted q' r)" by auto
      with assms show "quote_normal q (q # sub_quoted q' (c # cs))"
        unfolding sub by simp
    qed
    from p1 p2 show ?thesis by simp
  next
    case False
    then have sub: "sub_quoted q' (c # cs) = c # sub_quoted q' cs" by auto
    note ih = 2(2) [OF False assms]
    show ?thesis
    proof (cases "c = q")
      case True
      have p1: "quote_normal q (c # cs) \<longrightarrow> quote_normal q (sub_quoted q' (c # cs))"
        using ih True unfolding sub by simp
      have p2: "quote_normal q (q # c # cs) \<longrightarrow> quote_normal q (q # sub_quoted q' (c # cs))"
        using ih True unfolding sub by simp
      from p1 p2 show ?thesis by simp
    next
      case c: False
      have p1: "quote_normal q (c # cs) \<longrightarrow> quote_normal q (sub_quoted q' (c # cs))"
        using ih c unfolding sub by (simp add: quote_normal_Cons)
      have p2: "quote_normal q (q # c # cs) \<longrightarrow> quote_normal q (q # sub_quoted q' (c # cs))"
      proof
        assume "quote_normal q (q # c # cs)"
        with c have "q \<notin> set cs" by simp
        with sub_quoted_subset [of q' cs] have "q \<notin> set (sub_quoted q' cs)" by auto
        with c show "quote_normal q (q # sub_quoted q' (c # cs))" unfolding sub by simp
      qed
      from p1 p2 show ?thesis by simp
    qed
  qed
qed

lemma sub_quoted_no_slash2:
  "q \<noteq> slash \<Longrightarrow> no_slash2 t \<Longrightarrow> no_slash2 (sub_quoted q t)"
proof (induction q t rule: sub_quoted.induct)
  case (1 q) show ?case by simp
next
  case (2 q c cs)
  note q = 2(3) and t = 2(4)
  from t have cs: "no_slash2 cs" by (rule no_slash2_tl)
  show ?case
  proof (cases "c = q \<and> q \<in> set cs")
    case True
    define r where "r = tl (dropWhile (\<lambda>x. x \<noteq> q) cs)"
    from True have "q \<in> set cs" by (rule conjunct2)
    from drop_quote_suffix [OF this r_def] obtain u where u: "cs = u @ q # r" by (rule exE)
    have sub: "sub_quoted q (c # cs) = q # q # sub_quoted q r"
      using True by (simp add: r_def)
    from cs u have "no_slash2 ((u @ [q]) @ r)" by simp
    then have "no_slash2 r" by (rule no_slash2_append)
    with 2(1) [OF True q] have "no_slash2 (sub_quoted q r)" by (simp add: r_def)
    with q show ?thesis unfolding sub by (simp add: no_slash2_Cons)
  next
    case False
    then have sub: "sub_quoted q (c # cs) = c # sub_quoted q cs" by auto
    from 2(2) [OF False q cs] have ih: "no_slash2 (sub_quoted q cs)" .
    have "no_slash2 (c # sub_quoted q cs)"
    proof (rule no_slash2_ConsI [OF ih])
      assume c: "c = slash" and ne: "sub_quoted q cs \<noteq> []"
      then obtain d ds where d: "cs = d # ds" by (cases cs) auto
      with t c have "d \<noteq> slash" by simp
      moreover from sub_quoted_hd [of q d ds] obtain X where "sub_quoted q (d # ds) = d # X"
        by (rule exE)
      ultimately show "hd (sub_quoted q cs) \<noteq> slash" using d by simp
    qed
    then show ?thesis unfolding sub .
  qed
qed

lemma after_close_Cons: "c \<noteq> star \<Longrightarrow> after_close (c # cs) = after_close cs"
  by (cases cs) auto

lemma after_close_ConsI:
  assumes "after_close cs \<noteq> None"
  shows "after_close (c # cs) \<noteq> None"
proof
  assume "after_close (c # cs) = None"
  then have "after_close cs = None" by (rule after_close_tl_None)
  with assms show False by simp
qed

lemma after_close_append: "after_close r \<noteq> None \<Longrightarrow> after_close (u @ r) \<noteq> None"
proof (induction u)
  case Nil then show ?case by simp
next
  case (Cons a u)
  then have "after_close (u @ r) \<noteq> None" by simp
  then have "after_close (a # u @ r) \<noteq> None" by (rule after_close_ConsI)
  then show ?case by simp
qed

lemma sub_quoted_after_close:
  "q \<noteq> star \<Longrightarrow> after_close (sub_quoted q s) \<noteq> None \<Longrightarrow> after_close s \<noteq> None"
proof (induction q s rule: sub_quoted.induct)
  case (1 q) then show ?case by simp
next
  case (2 q c cs)
  note q = 2(3) and t = 2(4)
  show ?case
  proof (cases "c = q \<and> q \<in> set cs")
    case True
    define r where "r = tl (dropWhile (\<lambda>x. x \<noteq> q) cs)"
    from True have "q \<in> set cs" by (rule conjunct2)
    from drop_quote_suffix [OF this r_def] obtain u where u: "cs = u @ q # r" by (rule exE)
    have sub: "sub_quoted q (c # cs) = q # q # sub_quoted q r"
      using True by (simp add: r_def)
    from t q have "after_close (sub_quoted q r) \<noteq> None"
      unfolding sub by (simp add: after_close_Cons)
    with 2(1) [OF True q] have "after_close r \<noteq> None" by (simp add: r_def)
    then have "after_close ((c # u @ [q]) @ r) \<noteq> None" by (rule after_close_append)
    with u show ?thesis by simp
  next
    case False
    then have sub: "sub_quoted q (c # cs) = c # sub_quoted q cs" by auto
    note ih = 2(2) [OF False q]
    show ?thesis
    proof (cases "c = star")
      case c: False
      with t have "after_close (sub_quoted q cs) \<noteq> None"
        unfolding sub by (simp add: after_close_Cons)
      with ih have "after_close cs \<noteq> None" by simp
      then show ?thesis by (rule after_close_ConsI)
    next
      case c: True
      show ?thesis
      proof (cases cs)
        case Nil
        from t show ?thesis unfolding sub Nil by simp
      next
        case (Cons d ds)
        from sub_quoted_hd [of q d ds] obtain X where X: "sub_quoted q (d # ds) = d # X"
          by (rule exE)
        show ?thesis
        proof (cases "d = slash")
          case True
          with c Cons show ?thesis by simp
        next
          case d: False
          have e: "sub_quoted q (c # cs) = c # d # X"
            using sub by (simp only: Cons X)
          from t have "after_close (c # d # X) \<noteq> None"
            unfolding e .
          with d c have "after_close (d # X) \<noteq> None" by simp
          then have "after_close (sub_quoted q (d # ds)) \<noteq> None"
            unfolding X .
          with ih Cons have "after_close cs \<noteq> None" by simp
          then show ?thesis by (rule after_close_ConsI)
        qed
      qed
    qed
  qed
qed

lemma no_block_tl: "no_block (c # cs) \<Longrightarrow> no_block cs"
  by (cases cs) auto

lemma no_block_append: "no_block (u @ r) \<Longrightarrow> no_block r"
  by (induction u) (auto dest: no_block_tl)

lemma sub_quoted_no_block:
  "q \<noteq> slash \<Longrightarrow> q \<noteq> star \<Longrightarrow> no_block t \<Longrightarrow> no_block (sub_quoted q t)"
proof (induction q t rule: sub_quoted.induct)
  case (1 q) show ?case by simp
next
  case (2 q c cs)
  note q = 2(3) and q' = 2(4) and t = 2(5)
  from t have cs: "no_block cs" by (rule no_block_tl)
  show ?case
  proof (cases "c = q \<and> q \<in> set cs")
    case True
    define r where "r = tl (dropWhile (\<lambda>x. x \<noteq> q) cs)"
    from True have "q \<in> set cs" by (rule conjunct2)
    from drop_quote_suffix [OF this r_def] obtain u where u: "cs = u @ q # r" by (rule exE)
    have sub: "sub_quoted q (c # cs) = q # q # sub_quoted q r"
      using True by (simp add: r_def)
    from cs u have "no_block ((u @ [q]) @ r)" by simp
    then have "no_block r" by (rule no_block_append)
    with 2(1) [OF True q q'] have "no_block (sub_quoted q r)" by (simp add: r_def)
    with q show ?thesis unfolding sub by (simp add: no_block_Cons)
  next
    case False
    then have sub: "sub_quoted q (c # cs) = c # sub_quoted q cs" by auto
    from 2(2) [OF False q q' cs] have ih: "no_block (sub_quoted q cs)" .
    show ?thesis
    proof (cases "c = slash")
      case c: False
      with ih show ?thesis unfolding sub by (simp add: no_block_Cons)
    next
      case c: True
      show ?thesis
      proof (cases cs)
        case Nil
        then show ?thesis unfolding sub by simp
      next
        case (Cons d ds)
        show ?thesis
        proof (cases "d = star")
          case d: False
          from sub_quoted_hd [of q d ds] obtain X where X: "sub_quoted q (d # ds) = d # X"
            by (rule exE)
          have e: "sub_quoted q (c # cs) = c # d # X"
            using sub by (simp only: Cons X)
          from ih have "no_block (d # X)" unfolding Cons X .
          with d show ?thesis unfolding e by simp
        next
          case d: True
          with q' have dq: "d \<noteq> q" by simp
          then have X: "sub_quoted q (d # ds) = d # sub_quoted q ds" by simp
          from t c d Cons have ds: "after_close ds = None" by simp
          have "after_close (sub_quoted q ds) = None"
          proof (rule ccontr)
            assume "after_close (sub_quoted q ds) \<noteq> None"
            from sub_quoted_after_close [OF q' this] have "after_close ds \<noteq> None" .
            with ds show False by simp
          qed
          moreover from ih have "no_block (d # sub_quoted q ds)" unfolding Cons X .
          moreover have e: "sub_quoted q (c # cs) = c # d # sub_quoted q ds"
            using sub by (simp only: Cons X)
          ultimately show ?thesis unfolding e by simp
        qed
      qed
    qed
  qed
qed

subsection \<open>The six passes together\<close>

lemma remove_fixed: "stripped t \<Longrightarrow> remove_comments_and_strings t = t"
  by (simp add: stripped_def remove_comments_and_strings_def sub_slash_fixed sub_hash_fixed
      sub_block_fixed sub_quoted_fixed)

lemma remove_stripped: "stripped (remove_comments_and_strings s)"
proof -
  define a1 where "a1 = sub_slash_comments s"
  define a2 where "a2 = sub_hash_comments a1"
  define a3 where "a3 = sub_block_comments a2"
  define a4 where "a4 = sub_quoted dquote a3"
  define a5 where "a5 = sub_quoted squote a4"
  define a6 where "a6 = sub_quoted backtick a5"
  have r: "remove_comments_and_strings s = a6"
    by (simp add: remove_comments_and_strings_def a1_def a2_def a3_def a4_def a5_def a6_def)
  have s1: "no_slash2 a1" unfolding a1_def by (rule sub_slash_normal)
  have s2: "no_slash2 a2" unfolding a2_def using s1 by (rule sub_hash_no_slash2)
  have s3: "no_slash2 a3" unfolding a3_def using s2 by (rule sub_block_no_slash2)
  have s4: "no_slash2 a4" unfolding a4_def using s3 by (simp add: sub_quoted_no_slash2)
  have s5: "no_slash2 a5" unfolding a5_def using s4 by (simp add: sub_quoted_no_slash2)
  have s6: "no_slash2 a6" unfolding a6_def using s5 by (simp add: sub_quoted_no_slash2)
  have h2: "hash \<notin> set a2" unfolding a2_def by (rule sub_hash_no_hash)
  have h3: "hash \<notin> set a3" unfolding a3_def using h2 sub_block_subset [of a2] by auto
  have h4: "hash \<notin> set a4" unfolding a4_def using h3 sub_quoted_subset [of dquote a3] by auto
  have h5: "hash \<notin> set a5" unfolding a5_def using h4 sub_quoted_subset [of squote a4] by auto
  have h6: "hash \<notin> set a6" unfolding a6_def using h5 sub_quoted_subset [of backtick a5] by auto
  have b3: "no_block a3" unfolding a3_def using s2 by (rule sub_block_normal)
  have b4: "no_block a4" unfolding a4_def using b3 by (simp add: sub_quoted_no_block)
  have b5: "no_block a5" unfolding a5_def using b4 by (simp add: sub_quoted_no_block)
  have b6: "no_block a6" unfolding a6_def using b5 by (simp add: sub_quoted_no_block)
  have d4: "quote_normal dquote a4" unfolding a4_def by (rule sub_quoted_normal)
  have d5: "quote_normal dquote a5" unfolding a5_def
    using d4 sub_quoted_other_normal [of squote dquote a4] by simp
  have d6: "quote_normal dquote a6" unfolding a6_def
    using d5 sub_quoted_other_normal [of backtick dquote a5] by simp
  have q5: "quote_normal squote a5" unfolding a5_def by (rule sub_quoted_normal)
  have q6: "quote_normal squote a6" unfolding a6_def
    using q5 sub_quoted_other_normal [of backtick squote a5] by simp
  have t6: "quote_normal backtick a6" unfolding a6_def by (rule sub_quoted_normal)
  from s6 h6 b6 d6 q6 t6 show ?thesis unfolding r stripped_def by simp
qed

text \<open>
  Claim C6. Stripping comments and strings is idempotent: for every text, applying
  \<open>remove_comments_and_strings\<close> to its own result gives that result again.
\<close>

theorem remove_comments_and_strings_idempotent:
  "remove_comments_and_strings (remove_comments_and_strings code_content)
     = remove_comments_and_strings code_content"
  by (rule remove_fixed [OF remove_stripped])

section \<open>The complexity score\<close>

subsection \<open>The visitor\<close>

lemma added_0 [simp]: "added self 0 = self"
  by (simp add: added_def)

lemma added_added [simp]: "added (added self j) k = added self (j + k)"
  by (simp add: added_def)

lemma generator_ifs_sum:
  "generator_ifs generators self =
     added self
        (\<Sum>g\<leftarrow>generators. case g of Comprehension target iter ifs is_async \<Rightarrow> int (length ifs))"
  by (induction generators self rule: generator_ifs.induct) (auto simp: added_def)

lemma height_pos: "0 < height n"
  by (cases n) auto

lemma visit_done:
  "height n \<le> Suc depth \<Longrightarrow>
     visit_python_node depth n self = Done (added self (sum_list (map visitor_adds (walk n))))"
  "height_list ns \<le> depth \<Longrightarrow>
     visit_children depth ns self = Done (added self (sum_list (map visitor_adds (walk_list ns))))"
  "height_comprehension g \<le> Suc depth \<Longrightarrow>
     visit_comprehension depth g self
       = Done (added self (sum_list (map visitor_adds (walk_comprehension g))))"
  "height_comprehensions gs \<le> depth \<Longrightarrow>
     visit_comprehensions depth gs self
       = Done (added self (sum_list (map visitor_adds (walk_comprehensions gs))))"
proof (induction n and ns and g and gs arbitrary: depth self and depth self and depth self
       and depth self
       rule: height_height_list_height_comprehension_height_comprehensions.induct)
  case (1 cls children)
  then show ?case by (simp add: added_def)
next
  case (2 op v1 v2 vs)
  from 2(5) obtain d where d: "depth = Suc d" using height_pos [of op] by (cases depth) auto
  with 2(5) have h: "height op \<le> Suc d" "height v1 \<le> Suc d" "height v2 \<le> Suc d"
    "height_list vs \<le> depth" by auto
  show ?case
    by (simp add: d Let_def 2(1) [OF h(1)] 2(2) [OF h(2)] 2(3) [OF h(3)]
        2(4) [OF h(4), unfolded d]) (simp add: added_def)
next
  case (3 elt generators)
  from 3(3) obtain d where d: "depth = Suc d" using height_pos [of elt] by (cases depth) auto
  with 3(3) have h: "height elt \<le> Suc d" "height_comprehensions generators \<le> depth" by auto
  show ?case
    by (simp add: d Let_def generator_ifs_sum add.assoc 3(1) [OF h(1)] 3(2) [OF h(2), unfolded d])
next
  case (4 key val generators)
  from 4(4) obtain d where d: "depth = Suc d" using height_pos [of key] by (cases depth) auto
  with 4(4) have h: "height key \<le> Suc d" "height val \<le> Suc d"
    "height_comprehensions generators \<le> depth" by auto
  show ?case
    by (simp add: d Let_def generator_ifs_sum add.assoc 4(1) [OF h(1)] 4(2) [OF h(2)]
        4(3) [OF h(3), unfolded d])
next
  case (5 elt generators)
  from 5(3) obtain d where d: "depth = Suc d" using height_pos [of elt] by (cases depth) auto
  with 5(3) have h: "height elt \<le> Suc d" "height_comprehensions generators \<le> depth" by auto
  show ?case
    by (simp add: d Let_def generator_ifs_sum add.assoc 5(1) [OF h(1)] 5(2) [OF h(2), unfolded d])
next
  case (6 elt generators)
  from 6(3) obtain d where d: "depth = Suc d" using height_pos [of elt] by (cases depth) auto
  with 6(3) have h: "height elt \<le> Suc d" "height_comprehensions generators \<le> depth" by auto
  show ?case
    by (simp add: d Let_def generator_ifs_sum add.assoc 6(1) [OF h(1)] 6(2) [OF h(2), unfolded d])
next
  case 7
  show ?case by simp
next
  case (8 child children)
  from 8(3) obtain d where d: "depth = Suc d" using height_pos [of child] by (cases depth) auto
  with 8(3) have h: "height child \<le> Suc d" "height_list children \<le> depth" by auto
  show ?case
    by (simp add: d 8(1) [OF h(1)] 8(2) [OF h(2), unfolded d])
next
  case (9 target iter ifs is_async)
  from 9(4) obtain d where d: "depth = Suc d" using height_pos [of target] by (cases depth) auto
  with 9(4) have h: "height target \<le> Suc d" "height iter \<le> Suc d" "height_list ifs \<le> depth"
    by auto
  show ?case
    by (simp add: d add.assoc 9(1) [OF h(1)] 9(2) [OF h(2)] 9(3) [OF h(3), unfolded d])
next
  case 10
  show ?case by simp
next
  case (11 g generators)
  from 11(3) obtain d where d: "depth = Suc d"
    by (cases depth; cases g) auto
  with 11(3) have h: "height_comprehension g \<le> Suc d" "height_comprehensions generators \<le> depth"
    by auto
  show ?case
    by (simp add: d 11(1) [OF h(1)] 11(2) [OF h(2), unfolded d])
qed



lemma analyze_python_within_depth:
  "parse code_content = Some tree \<Longrightarrow> height tree \<le> Suc depth \<Longrightarrow>
     fst (analyze_python parse depth code_content self)
       = 1 + sum_list (map visitor_adds (walk tree))"
  by (simp add: analyze_python_def visit_done added_def)











lemma analyze_python_state:
  "fst (analyze_python parse depth code_content self)
     = fst (analyze_python parse depth code_content self')"
  by (cases self; cases self') (simp add: analyze_python_def split: option.splits)

subsection \<open>The keyword count\<close>

lemma foldl_no_matches:
  "(\<forall>keyword\<in>set keywords. findall_count keyword cleaned = 0) \<Longrightarrow>
     foldl (\<lambda>complexity keyword. complexity + int (findall_count keyword cleaned)) c keywords = c"
  by (induction "keywords" arbitrary: c) auto


lemma findall_count_empty: "findall_count keyword [] = 0"
  by (simp add: findall_count_def)

lemma remove_empty: "remove_comments_and_strings [] = []"
  by (simp add: remove_comments_and_strings_def)

lemma count_complexity_keywords_no_matches:
  "(\<forall>keyword\<in>set keywords. findall_count keyword (remove_comments_and_strings code_content) = 0)
     \<Longrightarrow> count_complexity_keywords code_content keywords = 1"
  by (simp add: count_complexity_keywords_def Let_def foldl_no_matches)

lemma count_complexity_keywords_empty: "count_complexity_keywords [] keywords = 1"
  by (rule count_complexity_keywords_no_matches) (simp add: remove_empty findall_count_empty)

lemmas analyzers =
  analyze_java_def analyze_javascript_def analyze_c_cpp_def analyze_go_def analyze_csharp_def
  analyze_php_def analyze_ruby_def analyze_generic_def


subsection \<open>A text without comments and literals\<close>

lemma sub_slash_append:
  "slash \<notin> set xs \<Longrightarrow> sub_slash_comments (xs @ ys) = xs @ sub_slash_comments ys"
proof (induction xs)
  case (Cons a xs)
  then have "a \<noteq> slash" and "slash \<notin> set xs" by auto
  with Cons.IH show ?case by (simp add: sub_slash_keep)
qed simp

lemma sub_hash_append:
  "hash \<notin> set xs \<Longrightarrow> sub_hash_comments (xs @ ys) = xs @ sub_hash_comments ys"
proof (induction xs)
  case (Cons a xs)
  then have "a \<noteq> hash" and "hash \<notin> set xs" by auto
  with Cons.IH show ?case by simp
qed simp

lemma sub_block_append:
  "slash \<notin> set xs \<Longrightarrow> sub_block_comments (xs @ ys) = xs @ sub_block_comments ys"
proof (induction xs)
  case (Cons a xs)
  then have "a \<noteq> slash" and "slash \<notin> set xs" by auto
  with Cons.IH show ?case by (simp add: sub_block_keep)
qed simp

lemma sub_quoted_append:
  "q \<notin> set xs \<Longrightarrow> sub_quoted q (xs @ ys) = xs @ sub_quoted q ys"
proof (induction xs)
  case (Cons a xs)
  then have "a \<noteq> q" and "q \<notin> set xs" by auto
  with Cons.IH show ?case by simp
qed simp









subsection \<open>A literal or a comment in a text\<close>

lemma takeWhile_all: "\<forall>x\<in>set xs. P x \<Longrightarrow> takeWhile P xs = xs"
  by (induction xs) auto

lemma last_line_plain: "newline \<notin> set l \<Longrightarrow> last_line l = l"
proof -
  assume "newline \<notin> set l"
  then have "\<forall>x\<in>set (rev l). x \<noteq> newline" by auto
  then have "takeWhile (\<lambda>x. x \<noteq> newline) (rev l) = rev l" by (rule takeWhile_all)
  then show ?thesis unfolding last_line_def by (simp only: rev_rev_ident)
qed

lemma last_line_append: "newline \<notin> set l \<Longrightarrow> last_line (p @ newline # l) = l"
proof -
  assume "newline \<notin> set l"
  then have a: "\<forall>x\<in>set (rev l). x \<noteq> newline" by auto
  have "takeWhile (\<lambda>x. x \<noteq> newline) (rev l @ newline # rev p)
          = takeWhile (\<lambda>x. x \<noteq> newline) (rev l)"
    by (rule takeWhile_tail) simp
  also from a have "\<dots> = rev l" by (rule takeWhile_all)
  finally have "takeWhile (\<lambda>x. x \<noteq> newline) (rev (p @ newline # l)) = rev l" by simp
  then show ?thesis unfolding last_line_def by (simp only: rev_rev_ident)
qed

lemma split_last_line:
  obtains "newline \<notin> set pre"
  | p l where "pre = p @ newline # l" and "newline \<notin> set l"
  using split_list_last [of newline pre] by blast

lemma dropWhile_newline:
  "dropWhile (\<lambda>x. x \<noteq> newline) (cs @ newline # ys) = dropWhile (\<lambda>x. x \<noteq> newline) cs @ newline # ys"
  by (induction cs) auto

lemma sub_slash_newline:
  "sub_slash_comments (xs @ newline # ys) = sub_slash_comments xs @ newline # sub_slash_comments ys"
proof (induction xs rule: sub_slash_comments.induct)
  case 1
  show ?case by (simp add: sub_slash_keep)
next
  case (2 c)
  show ?case by (simp add: sub_slash_keep)
next
  case (3 c d cs)
  show ?case
  proof (cases "c = slash \<and> d = slash")
    case True
    with 3(1) show ?thesis by (simp add: dropWhile_newline)
  next
    case False
    with 3(2) show ?thesis by auto
  qed
qed

lemma sub_hash_newline:
  "sub_hash_comments (xs @ newline # ys) = sub_hash_comments xs @ newline # sub_hash_comments ys"
proof (induction xs rule: sub_hash_comments.induct)
  case 1
  show ?case by simp
next
  case (2 c cs)
  show ?case
  proof (cases "c = hash")
    case True
    with 2(1) show ?thesis by (simp add: dropWhile_newline)
  next
    case False
    with 2(2) show ?thesis by simp
  qed
qed

lemma no_slash2_butlast: "no_slash2 (l @ [c]) \<Longrightarrow> no_slash2 l"
  by (induction l rule: no_slash2.induct) auto

lemma sub_slash_line:
  "no_slash2 (l @ [c]) \<Longrightarrow> sub_slash_comments (l @ c # r) = l @ sub_slash_comments (c # r)"
proof (induction l)
  case Nil
  show ?case by simp
next
  case (Cons a l)
  from Cons.prems have n: "no_slash2 (l @ [c])" by (cases l) auto
  from Cons.prems have "\<not> (a = slash \<and> hd (l @ c # r) = slash)" by (cases l) auto
  then have "sub_slash_comments (a # l @ c # r) = a # sub_slash_comments (l @ c # r)"
    by (cases "l @ c # r") auto
  with Cons.IH [OF n] show ?case by simp
qed

lemma sub_slash_split:
  assumes "no_slash2 (last_line pre @ [c])"
  shows "sub_slash_comments (pre @ c # r) = sub_slash_comments pre @ sub_slash_comments (c # r)"
proof (cases pre rule: split_last_line)
  case 1
  with assms have n: "no_slash2 (pre @ [c])" by (simp add: last_line_plain)
  then have "sub_slash_comments pre = pre" by (rule no_slash2_butlast [THEN sub_slash_fixed])
  with sub_slash_line [OF n] show ?thesis by simp
next
  case (2 p l)
  with assms have n: "no_slash2 (l @ [c])" by (simp add: last_line_append)
  then have f: "sub_slash_comments l = l" by (rule no_slash2_butlast [THEN sub_slash_fixed])
  have "sub_slash_comments (pre @ c # r) = sub_slash_comments (p @ newline # (l @ c # r))"
    using 2 by simp
  also have "\<dots> = sub_slash_comments p @ newline # sub_slash_comments (l @ c # r)"
    by (rule sub_slash_newline)
  also have "\<dots> = sub_slash_comments p @ newline # l @ sub_slash_comments (c # r)"
    by (simp add: sub_slash_line [OF n])
  also have "\<dots> = sub_slash_comments pre @ sub_slash_comments (c # r)"
    using 2 f by (simp add: sub_slash_newline)
  finally show ?thesis .
qed

lemma last_line_sub_slash:
  assumes "no_slash2 (last_line pre)"
  shows "last_line (sub_slash_comments pre) = last_line pre"
proof (cases pre rule: split_last_line)
  case 1
  with assms show ?thesis by (simp add: last_line_plain sub_slash_fixed)
next
  case (2 p l)
  with assms have "sub_slash_comments l = l" by (simp add: last_line_append sub_slash_fixed)
  with 2 show ?thesis by (simp add: sub_slash_newline last_line_append)
qed

lemma sub_hash_split:
  assumes "hash \<notin> set (last_line pre)"
  shows "sub_hash_comments (pre @ r) = sub_hash_comments pre @ sub_hash_comments r"
proof (cases pre rule: split_last_line)
  case 1
  with assms have "hash \<notin> set pre" by (simp add: last_line_plain)
  then show ?thesis by (simp add: sub_hash_append sub_hash_fixed)
next
  case (2 p l)
  with assms have h: "hash \<notin> set l" by (simp add: last_line_append)
  have "sub_hash_comments (pre @ r) = sub_hash_comments (p @ newline # (l @ r))"
    using 2 by simp
  also have "\<dots> = sub_hash_comments p @ newline # sub_hash_comments (l @ r)"
    by (rule sub_hash_newline)
  also have "\<dots> = sub_hash_comments p @ newline # l @ sub_hash_comments r"
    using h by (simp add: sub_hash_append)
  also have "\<dots> = sub_hash_comments pre @ sub_hash_comments r"
    using 2 h by (simp add: sub_hash_newline sub_hash_fixed)
  finally show ?thesis .
qed

lemma after_close_Some_append:
  "after_close cs = Some t \<Longrightarrow> after_close (cs @ ys) = Some (t @ ys)"
  by (induction cs arbitrary: t rule: after_close.induct) (auto split: if_splits)

lemma sub_block_split:
  "blocks_closed p \<Longrightarrow> c \<noteq> star \<Longrightarrow>
     sub_block_comments (p @ c # r) = sub_block_comments p @ sub_block_comments (c # r)"
proof (induction p rule: sub_block_comments.induct)
  case 1
  show ?case by simp
next
  case (2 a)
  then show ?case by simp
next
  case (3 a d cs)
  show ?case
  proof (cases "a = slash \<and> d = star")
    case True
    with 3(4) obtain t where t: "after_close cs = Some t" and b: "blocks_closed t"
      by (auto split: option.splits)
    from t have "after_close (cs @ c # r) = Some (t @ c # r)" by (rule after_close_Some_append)
    with True t 3(2) [OF True t b 3(5)] show ?thesis by simp
  next
    case False
    with 3(4) have b: "blocks_closed (d # cs)" by simp
    from False 3(3) [OF False b 3(5)] show ?thesis by auto
  qed
qed

lemma count_after_first:
  "q \<in> set cs \<Longrightarrow> Suc (count_list (tl (dropWhile (\<lambda>x. x \<noteq> q) cs)) q) = count_list cs q"
  by (induction cs) auto

lemma sub_quoted_split:
  "even (count_list p q) \<Longrightarrow> sub_quoted q (p @ r) = sub_quoted q p @ sub_quoted q r"
proof (induction q p rule: sub_quoted.induct)
  case (1 q)
  show ?case by simp
next
  case (2 q c cs)
  show ?case
  proof (cases "c = q")
    case False
    with 2 show ?thesis by simp
  next
    case True
    with 2(3) have odd: "odd (count_list cs q)" by simp
    then have "count_list cs q \<noteq> 0" by (intro notI) simp
    then have m: "q \<in> set cs" by (simp add: count_list_0_iff)
    define t where "t = tl (dropWhile (\<lambda>x. x \<noteq> q) cs)"
    from count_after_first [OF m] odd have e: "even (count_list t q)"
      unfolding t_def by presburger
    from m have "dropWhile (\<lambda>x. x \<noteq> q) cs \<noteq> []" by simp
    moreover from m have "dropWhile (\<lambda>x. x \<noteq> q) (cs @ r) = dropWhile (\<lambda>x. x \<noteq> q) cs @ r"
      by (simp add: dropWhile_append1)
    ultimately have d: "tl (dropWhile (\<lambda>x. x \<noteq> q) (cs @ r)) = t @ r"
      unfolding t_def by simp
    from True m have ih: "sub_quoted q (t @ r) = sub_quoted q t @ sub_quoted q r"
      using 2(1) e unfolding t_def by simp
    have "sub_quoted q ((c # cs) @ r) = q # q # sub_quoted q (t @ r)"
      using True m d by simp
    moreover have "sub_quoted q (c # cs) = q # q # sub_quoted q t"
      using True m unfolding t_def by simp
    ultimately show ?thesis using ih by simp
  qed
qed

lemma sub_quoted_literal:
  assumes "q \<notin> set body"
  shows "sub_quoted q (q # body @ q # post) = q # q # sub_quoted q post"
proof -
  from assms have "dropWhile (\<lambda>x. x \<noteq> q) (body @ q # post) = q # post"
    by (induction body) auto
  then show ?thesis by simp
qed

lemma no_slash2_snoc:
  "no_slash2 l \<Longrightarrow> l = [] \<or> last l \<noteq> slash \<or> c \<noteq> slash \<Longrightarrow> no_slash2 (l @ [c])"
  by (induction l rule: no_slash2.induct) auto

lemma last_last_line: "last_line pre \<noteq> [] \<Longrightarrow> last (last_line pre) = last pre"
proof (cases pre rule: split_last_line)
  case 1
  then show ?thesis by (simp add: last_line_plain)
next
  case (2 p l)
  assume "last_line pre \<noteq> []"
  with 2 show ?thesis by (simp add: last_line_append)
qed

lemma pass1_split:
  assumes c: "comments_closed pre" and t: "pre = [] \<or> last pre \<noteq> slash \<or> a \<noteq> slash"
  shows "sub_slash_comments (pre @ a # r) = sub_slash_comments pre @ sub_slash_comments (a # r)"
proof -
  from c have n: "no_slash2 (last_line pre)" by (simp add: comments_closed_def)
  have "last_line pre = [] \<or> last (last_line pre) \<noteq> slash \<or> a \<noteq> slash"
  proof (cases "last_line pre = []")
    case True then show ?thesis by simp
  next
    case False
    then have "pre \<noteq> []" by (auto simp: last_line_def)
    with t False show ?thesis by (simp add: last_last_line)
  qed
  with n have "no_slash2 (last_line pre @ [a])" by (rule no_slash2_snoc)
  then show ?thesis by (rule sub_slash_split)
qed

lemma pass2_split:
  assumes c: "comments_closed pre"
  shows "sub_hash_comments (sub_slash_comments pre @ r)
           = sub_hash_comments (sub_slash_comments pre) @ sub_hash_comments r"
proof -
  from c have "hash \<notin> set (last_line (sub_slash_comments pre))"
    by (simp add: comments_closed_def last_line_sub_slash)
  then show ?thesis by (rule sub_hash_split)
qed

lemma pass3_split:
  assumes c: "comments_closed pre" and a: "a \<noteq> star"
  shows "sub_block_comments (sub_hash_comments (sub_slash_comments pre) @ a # r)
           = sub_block_comments (sub_hash_comments (sub_slash_comments pre))
             @ sub_block_comments (a # r)"
proof -
  from c have "blocks_closed (sub_hash_comments (sub_slash_comments pre))"
    by (simp add: comments_closed_def)
  then show ?thesis using a by (rule sub_block_split)
qed

lemma comments_literal:
  assumes c: "comments_closed pre" and a: "a \<noteq> star"
    and s: "slash \<notin> set (a # m)" and h: "hash \<notin> set (a # m)"
  shows "sub_block_comments (sub_hash_comments (sub_slash_comments (pre @ a # m @ r)))
           = sub_block_comments (sub_hash_comments (sub_slash_comments pre))
             @ a # m @ sub_block_comments (sub_hash_comments (sub_slash_comments r))"
proof -
  from s have "a \<noteq> slash" by auto
  then have "sub_slash_comments (pre @ a # m @ r)
               = sub_slash_comments pre @ sub_slash_comments ((a # m) @ r)"
    using pass1_split [OF c, of a "m @ r"] by simp
  also have "\<dots> = sub_slash_comments pre @ (a # m) @ sub_slash_comments r"
    by (simp only: sub_slash_append [OF s])
  finally have 1: "sub_slash_comments (pre @ a # m @ r)
                     = sub_slash_comments pre @ (a # m) @ sub_slash_comments r" .
  have "sub_hash_comments (sub_slash_comments pre @ (a # m) @ sub_slash_comments r)
          = sub_hash_comments (sub_slash_comments pre)
            @ sub_hash_comments ((a # m) @ sub_slash_comments r)"
    using c by (rule pass2_split)
  also have "\<dots> = sub_hash_comments (sub_slash_comments pre)
                      @ (a # m) @ sub_hash_comments (sub_slash_comments r)"
    by (simp only: sub_hash_append [OF h])
  finally have 2: "sub_hash_comments (sub_slash_comments (pre @ a # m @ r))
                     = sub_hash_comments (sub_slash_comments pre)
                       @ a # (m @ sub_hash_comments (sub_slash_comments r))"
    using 1 by simp
  have "sub_block_comments (sub_hash_comments (sub_slash_comments pre)
            @ a # (m @ sub_hash_comments (sub_slash_comments r)))
          = sub_block_comments (sub_hash_comments (sub_slash_comments pre))
            @ sub_block_comments ((a # m) @ sub_hash_comments (sub_slash_comments r))"
    using pass3_split [OF c a] by simp
  also have "\<dots> = sub_block_comments (sub_hash_comments (sub_slash_comments pre))
                      @ (a # m) @ sub_block_comments (sub_hash_comments (sub_slash_comments r))"
    by (simp only: sub_block_append [OF s])
  finally show ?thesis using 2 by simp
qed

lemma quote_pass_other:
  assumes "even (count_list p q)" and "q \<notin> set lit"
  shows "sub_quoted q (p @ lit @ r) = sub_quoted q p @ lit @ sub_quoted q r"
proof -
  from assms(1) have "sub_quoted q (p @ lit @ r) = sub_quoted q p @ sub_quoted q (lit @ r)"
    by (rule sub_quoted_split)
  with assms(2) show ?thesis by (simp add: sub_quoted_append)
qed

lemma quote_pass_own:
  assumes "even (count_list p q)" and "q \<notin> set body"
  shows "sub_quoted q (p @ q # body @ q # r) = sub_quoted q p @ q # q # sub_quoted q r"
proof -
  from assms(1) have "sub_quoted q (p @ q # body @ q # r)
                        = sub_quoted q p @ sub_quoted q (q # body @ q # r)"
    by (rule sub_quoted_split)
  also have "sub_quoted q (q # body @ q # r) = q # q # sub_quoted q r"
    using assms(2) by (rule sub_quoted_literal)
  finally show ?thesis .
qed

lemma remove_literal:
  assumes q: "q = dquote \<or> q = squote \<or> q = backtick"
    and c: "comments_closed pre" and p: "quotes_paired q pre" and b: "literal_body q body"
  shows "remove_comments_and_strings (pre @ q # body @ q # post)
           = remove_comments_and_strings (pre @ q # q # post)"
proof -
  define code where "code = sub_block_comments (sub_hash_comments (sub_slash_comments pre))"
  define rest where "rest = sub_block_comments (sub_hash_comments (sub_slash_comments post))"
  from q have star: "q \<noteq> star" and slash: "q \<noteq> slash" and hash: "q \<noteq> hash" by auto
  from b have bs: "slash \<notin> set body" and bh: "hash \<notin> set body" and bq: "q \<notin> set body"
    by (simp_all add: literal_body_def)
  have l: "sub_block_comments (sub_hash_comments (sub_slash_comments (pre @ q # body @ q # post)))
             = code @ q # body @ q # rest"
    using comments_literal [OF c star, of "body @ [q]" post] slash hash bs bh
    by (simp add: code_def rest_def)
  have e: "sub_block_comments (sub_hash_comments (sub_slash_comments (pre @ q # q # post)))
             = code @ q # q # rest"
    using comments_literal [OF c star, of "[q]" post] slash hash
    by (simp add: code_def rest_def)
  from p have p1: "even (count_list code dquote)"
    and p2: "q = dquote \<or> even (count_list (sub_quoted dquote code) squote)"
    and p3: "q \<noteq> backtick \<or> even (count_list (sub_quoted squote (sub_quoted dquote code)) backtick)"
    by (simp_all add: quotes_paired_def code_def Let_def)
  have n: "q # [] @ q # r = q # q # r" for r by simp
  have "sub_quoted backtick (sub_quoted squote (sub_quoted dquote (code @ q # body @ q # rest)))
          = sub_quoted backtick (sub_quoted squote (sub_quoted dquote (code @ q # q # rest)))"
  proof (cases "q = dquote")
    case True
    from p1 bq have "sub_quoted dquote (code @ dquote # body @ dquote # rest)
                       = sub_quoted dquote code @ dquote # dquote # sub_quoted dquote rest"
      unfolding True by (rule quote_pass_own)
    moreover from p1 have "sub_quoted dquote (code @ dquote # [] @ dquote # rest)
                       = sub_quoted dquote code @ dquote # dquote # sub_quoted dquote rest"
      by (rule quote_pass_own) simp
    ultimately show ?thesis unfolding True by simp
  next
    case False
    with b p2 have bd: "dquote \<notin> set (q # body @ [q])"
      and p2': "even (count_list (sub_quoted dquote code) squote)"
      by (auto simp: literal_body_def)
    from False have ed: "dquote \<notin> set [q, q]" by simp
    have l1: "sub_quoted dquote (code @ q # body @ q # rest)
               = sub_quoted dquote code @ q # body @ q # sub_quoted dquote rest"
      using quote_pass_other [OF p1 bd, of rest] by simp
    have e1: "sub_quoted dquote (code @ q # q # rest)
               = sub_quoted dquote code @ q # q # sub_quoted dquote rest"
      using quote_pass_other [OF p1 ed, of rest] by simp
    show ?thesis
    proof (cases "q = squote")
      case True
      from p2' bq have "sub_quoted squote (sub_quoted dquote code @ squote # body @ squote # sub_quoted dquote rest)
                 = sub_quoted squote (sub_quoted dquote code) @ squote # squote
                   # sub_quoted squote (sub_quoted dquote rest)"
        unfolding True by (rule quote_pass_own)
      moreover from p2' have "sub_quoted squote (sub_quoted dquote code @ squote # [] @ squote # sub_quoted dquote rest)
                 = sub_quoted squote (sub_quoted dquote code) @ squote # squote
                   # sub_quoted squote (sub_quoted dquote rest)"
        by (rule quote_pass_own) simp
      ultimately show ?thesis using l1 e1 unfolding True by simp
    next
      case False
      with q \<open>q \<noteq> dquote\<close> have t: "q = backtick" by simp
      with b p3 have bsq: "squote \<notin> set (q # body @ [q])"
        and p3': "even (count_list (sub_quoted squote (sub_quoted dquote code)) backtick)"
        by (auto simp: literal_body_def)
      from t have es: "squote \<notin> set [q, q]" by simp
      have l2: "sub_quoted squote (sub_quoted dquote code @ q # body @ q # sub_quoted dquote rest)
                 = sub_quoted squote (sub_quoted dquote code) @ q # body @ q
                   # sub_quoted squote (sub_quoted dquote rest)"
        using quote_pass_other [OF p2' bsq, of "sub_quoted dquote rest"] by simp
      have e2: "sub_quoted squote (sub_quoted dquote code @ q # q # sub_quoted dquote rest)
                 = sub_quoted squote (sub_quoted dquote code) @ q # q
                   # sub_quoted squote (sub_quoted dquote rest)"
        using quote_pass_other [OF p2' es, of "sub_quoted dquote rest"] by simp
      from p3' bq have "sub_quoted backtick (sub_quoted squote (sub_quoted dquote code)
                   @ backtick # body @ backtick # sub_quoted squote (sub_quoted dquote rest))
                 = sub_quoted backtick (sub_quoted squote (sub_quoted dquote code))
                   @ backtick # backtick
                   # sub_quoted backtick (sub_quoted squote (sub_quoted dquote rest))"
        unfolding t by (rule quote_pass_own)
      moreover from p3' have "sub_quoted backtick (sub_quoted squote (sub_quoted dquote code)
                   @ backtick # [] @ backtick # sub_quoted squote (sub_quoted dquote rest))
                 = sub_quoted backtick (sub_quoted squote (sub_quoted dquote code))
                   @ backtick # backtick
                   # sub_quoted backtick (sub_quoted squote (sub_quoted dquote rest))"
        by (rule quote_pass_own) simp
      ultimately show ?thesis using l1 e1 l2 e2 unfolding t by simp
    qed
  qed
  with l e show ?thesis by (simp add: remove_comments_and_strings_def)
qed

lemma dropWhile_none: "newline \<notin> set cs \<Longrightarrow> dropWhile (\<lambda>x. x \<noteq> newline) cs = []"
  by (induction cs) auto

lemma sub_slash_subset: "set (sub_slash_comments s) \<subseteq> set s"
proof (induction s rule: sub_slash_comments.induct)
  case (3 c d cs)
  show ?case
  proof (cases "c = slash \<and> d = slash")
    case True
    with 3(1) have "set (sub_slash_comments (c # d # cs))
                      \<subseteq> set (dropWhile (\<lambda>x. x \<noteq> newline) cs)" by simp
    also have "\<dots> \<subseteq> set cs" by (auto dest: set_dropWhileD)
    finally show ?thesis by auto
  next
    case False
    with 3(2) show ?thesis by auto
  qed
qed simp_all

lemma slash_comment_line:
  "newline \<notin> set l \<Longrightarrow> newline \<notin> set body \<Longrightarrow>
     sub_slash_comments (l @ slash # slash # body) = sub_slash_comments (l @ [slash, slash])"
proof (induction l rule: sub_slash_comments.induct)
  case 1
  then show ?case by (simp add: dropWhile_none)
next
  case (2 c)
  then show ?case by (simp add: dropWhile_none)
next
  case (3 c d cs)
  show ?case
  proof (cases "c = slash \<and> d = slash")
    case True
    with 3(3,4) show ?thesis by (simp add: dropWhile_none)
  next
    case False
    with 3(2,3,4) show ?thesis by auto
  qed
qed

lemma line_comment_any:
  assumes line: "\<And>l. newline \<notin> set l \<Longrightarrow> f (l @ a) = f (l @ b)"
    and nl: "\<And>xs ys. f (xs @ newline # ys) = f xs @ newline # f ys"
    and e: "line_ends post"
  shows "f (pre @ a @ post) = f (pre @ b @ post)"
proof -
  have 1: "f (pre @ a) = f (pre @ b)"
  proof (cases pre rule: split_last_line)
    case 1
    then show ?thesis by (rule line)
  next
    case (2 p l)
    have "f (p @ newline # (l @ a)) = f (p @ newline # (l @ b))"
      unfolding nl using line [OF 2(2)] by simp
    with 2(1) show ?thesis by simp
  qed
  show ?thesis
  proof (cases post)
    case Nil
    with 1 show ?thesis by simp
  next
    case (Cons c r)
    with e have c: "c = newline" by (simp add: line_ends_def)
    have "f ((pre @ a) @ newline # r) = f ((pre @ b) @ newline # r)"
      unfolding nl using 1 by simp
    with Cons c show ?thesis by simp
  qed
qed

lemma remove_slash_comment:
  assumes "newline \<notin> set body" and "line_ends post"
  shows "remove_comments_and_strings (pre @ slash # slash # body @ post)
           = remove_comments_and_strings (pre @ slash # slash # post)"
proof -
  have "sub_slash_comments (pre @ (slash # slash # body) @ post)
          = sub_slash_comments (pre @ [slash, slash] @ post)"
    using assms(2)
    by (intro line_comment_any [where f = sub_slash_comments] sub_slash_newline
        slash_comment_line assms(1))
  then show ?thesis by (simp add: remove_comments_and_strings_def)
qed

lemma hash_comment_line:
  "newline \<notin> set l \<Longrightarrow> newline \<notin> set body \<Longrightarrow>
     sub_hash_comments (sub_slash_comments (l @ hash # body))
       = sub_hash_comments (sub_slash_comments (l @ [hash]))"
proof (induction l rule: sub_slash_comments.induct)
  case 1
  have "newline \<notin> set (sub_slash_comments body)"
    using 1(2) sub_slash_subset [of body] by auto
  then show ?case by (simp add: sub_slash_keep dropWhile_none)
next
  case (2 c)
  have n: "newline \<notin> set (sub_slash_comments body)"
    using 2(2) sub_slash_subset [of body] by auto
  have "sub_slash_comments ([c] @ hash # body) = c # hash # sub_slash_comments body"
    by (simp add: sub_slash_keep)
  moreover have "sub_slash_comments ([c] @ [hash]) = [c, hash]" by simp
  ultimately show ?case using n by (simp add: dropWhile_none)
next
  case (3 c d cs)
  show ?case
  proof (cases "c = slash \<and> d = slash")
    case True
    with 3(3,4) show ?thesis by (simp add: dropWhile_none)
  next
    case False
    have n1: "newline \<notin> set (sub_slash_comments ((d # cs) @ hash # body))"
      using 3(3,4) sub_slash_subset [of "(d # cs) @ hash # body"] by auto
    have n2: "newline \<notin> set (sub_slash_comments ((d # cs) @ [hash]))"
      using 3(3) sub_slash_subset [of "(d # cs) @ [hash]"] by auto
    from 3(3) have "newline \<notin> set (d # cs)" by simp
    from 3(2) [OF False this 3(4)] False n1 n2 show ?thesis
      by (auto simp: dropWhile_none)
  qed
qed

lemma remove_hash_comment:
  assumes "newline \<notin> set body" and "line_ends post"
  shows "remove_comments_and_strings (pre @ hash # body @ post)
           = remove_comments_and_strings (pre @ hash # post)"
proof -
  have "(\<lambda>s. sub_hash_comments (sub_slash_comments s)) (pre @ (hash # body) @ post)
          = (\<lambda>s. sub_hash_comments (sub_slash_comments s)) (pre @ [hash] @ post)"
  proof (rule line_comment_any)
    show "line_ends post" by (rule assms(2))
  next
    fix l :: string
    assume "newline \<notin> set l"
    then show "sub_hash_comments (sub_slash_comments (l @ hash # body))
                 = sub_hash_comments (sub_slash_comments (l @ [hash]))"
      using assms(1) by (rule hash_comment_line)
  next
    fix xs ys
    show "sub_hash_comments (sub_slash_comments (xs @ newline # ys))
            = sub_hash_comments (sub_slash_comments xs) @ newline
              # sub_hash_comments (sub_slash_comments ys)"
      by (simp add: sub_slash_newline sub_hash_newline)
  qed
  then show ?thesis by (simp add: remove_comments_and_strings_def)
qed

lemma after_close_body:
  "slash \<notin> set body \<Longrightarrow> after_close (body @ star # slash # r) = Some r"
proof (induction body)
  case Nil
  show ?case by simp
next
  case (Cons a body)
  then have i: "after_close (body @ star # slash # r) = Some r" by simp
  from Cons.prems have "hd (body @ star # slash # r) \<noteq> slash" by (cases body) auto
  then have "after_close (a # body @ star # slash # r) = after_close (body @ star # slash # r)"
    by (cases "body @ star # slash # r") auto
  with i show ?case by simp
qed

lemma comments_block:
  assumes c: "comments_closed pre" and t: "pre = [] \<or> last pre \<noteq> slash"
    and s: "slash \<notin> set body" and h: "hash \<notin> set body"
    and f: "post = [] \<or> hd post \<noteq> slash"
  shows "sub_block_comments (sub_hash_comments (sub_slash_comments
            (pre @ slash # star # body @ star # slash # post)))
           = sub_block_comments (sub_hash_comments (sub_slash_comments pre))
             @ sub_block_comments (sub_hash_comments (sub_slash_comments post))"
proof -
  define p1 where "p1 = sub_slash_comments pre"
  define r1 where "r1 = sub_slash_comments post"
  define p2 where "p2 = sub_hash_comments p1"
  define r2 where "r2 = sub_hash_comments r1"
  from f have "sub_slash_comments (slash # post) = slash # r1"
    unfolding r1_def by (cases post) auto
  moreover from s have "slash \<notin> set (star # body @ [star])" by simp
  then have "sub_slash_comments ((star # body @ [star]) @ slash # post)
               = (star # body @ [star]) @ sub_slash_comments (slash # post)"
    by (rule sub_slash_append)
  ultimately have "sub_slash_comments (slash # star # body @ star # slash # post)
                     = slash # star # body @ star # slash # r1"
    by simp
  moreover from t have "sub_slash_comments (pre @ slash # star # body @ star # slash # post)
           = p1 @ sub_slash_comments (slash # star # body @ star # slash # post)"
    unfolding p1_def by (intro pass1_split [OF c]) auto
  ultimately have 1: "sub_slash_comments (pre @ slash # star # body @ star # slash # post)
                        = p1 @ slash # star # body @ star # slash # r1"
    by simp
  have "sub_hash_comments (p1 @ slash # star # body @ star # slash # r1)
          = p2 @ sub_hash_comments ((slash # star # body @ [star, slash]) @ r1)"
    unfolding p1_def p2_def using pass2_split [OF c] by simp
  moreover from h have "hash \<notin> set (slash # star # body @ [star, slash])" by simp
  then have "sub_hash_comments ((slash # star # body @ [star, slash]) @ r1)
               = (slash # star # body @ [star, slash]) @ r2"
    unfolding r2_def by (rule sub_hash_append)
  ultimately have 2: "sub_hash_comments (p1 @ slash # star # body @ star # slash # r1)
                        = p2 @ slash # star # body @ star # slash # r2"
    by simp
  have "sub_block_comments (p2 @ slash # star # body @ star # slash # r2)
          = sub_block_comments p2 @ sub_block_comments (slash # star # body @ star # slash # r2)"
    unfolding p1_def p2_def by (rule pass3_split [OF c]) simp
  moreover have "sub_block_comments (slash # star # body @ star # slash # r2)
                   = sub_block_comments r2"
    using after_close_body [OF s, of r2] by simp
  ultimately show ?thesis using 1 2 by (simp add: p1_def p2_def r1_def r2_def)
qed

lemma remove_block_comment:
  assumes c: "comments_closed pre" and t: "pre = [] \<or> last pre \<noteq> slash"
    and s: "slash \<notin> set body" and h: "hash \<notin> set body"
    and f: "post = [] \<or> hd post \<noteq> slash"
  shows "remove_comments_and_strings (pre @ slash # star # body @ star # slash # post)
           = remove_comments_and_strings (pre @ slash # star # star # slash # post)"
proof -
  have "sub_block_comments (sub_hash_comments (sub_slash_comments
            (pre @ slash # star # [] @ star # slash # post)))
           = sub_block_comments (sub_hash_comments (sub_slash_comments pre))
             @ sub_block_comments (sub_hash_comments (sub_slash_comments post))"
    using c t _ _ f by (rule comments_block) simp_all
  with comments_block [OF c t s h f] show ?thesis
    by (simp add: remove_comments_and_strings_def)
qed

subsection \<open>The energy estimate\<close>

lemma energy_nonempty:
  "samples \<noteq> [] \<Longrightarrow>
     calculate_energy_consumption ops samples duration
       = energy_estimate ops (average ops (map cpu_percent samples))
           (average ops (map memory_mb samples)) duration"
  by (simp add: calculate_energy_consumption_def energy_estimate_def average_def Let_def)

lemma energy_estimate_mono:
  assumes m: "monotone_ops ops" and d: "f_of_int ops 0 \<le> duration"
    and c: "c1 \<le> c2" and r: "m1 \<le> m2"
  shows "energy_estimate ops c1 m1 duration \<le> energy_estimate ops c2 m2 duration"
proof -
  from m have add: "\<And>a b c d. a \<le> b \<Longrightarrow> c \<le> d \<Longrightarrow> f_add ops a c \<le> f_add ops b d"
    and mul: "\<And>a b c. f_of_int ops 0 \<le> c \<Longrightarrow> a \<le> b \<Longrightarrow> f_mul ops a c \<le> f_mul ops b c"
    and dv: "\<And>a b c. f_of_int ops 0 < c \<Longrightarrow> a \<le> b \<Longrightarrow> f_div ops a c \<le> f_div ops b c"
    and rnd: "\<And>a b n. a \<le> b \<Longrightarrow> f_round ops a n \<le> f_round ops b n"
    and pos: "\<And>i. 0 < i \<Longrightarrow> f_of_int ops 0 < f_of_int ops i"
    by (auto simp: monotone_ops_def)
  have pos': "\<And>i. 0 < i \<Longrightarrow> f_of_int ops 0 \<le> f_of_int ops i"
    using pos by (rule less_imp_le)
  have cpu: "f_mul ops (f_div ops c1 (f_of_int ops 100)) (f_of_int ops 30)
             \<le> f_mul ops (f_div ops c2 (f_of_int ops 100)) (f_of_int ops 30)"
    by (intro mul dv pos pos' c) simp_all
  have mem: "f_mul ops (f_div ops m1 (f_of_int ops 1000)) (f_of_int ops 2)
             \<le> f_mul ops (f_div ops m2 (f_of_int ops 1000)) (f_of_int ops 2)"
    by (intro mul dv pos pos' r) simp_all
  show ?thesis
    unfolding energy_estimate_def
    by (intro rnd dv mul add cpu mem pos d order_refl) simp
qed

lemma real_ops_monotone: "monotone_ops real_ops"
  unfolding monotone_ops_def real_ops_def
  by (auto intro!: add_mono mult_right_mono divide_right_mono round_mono)

section \<open>The claims\<close>




text \<open>
  Claim C2, at the Java text \<open>a && b\<close>. The text has one occurrence of \<open>&&\<close> and no
  other keyword of the rule set, so the claim gives 2. The code gives 3: the pattern for
  either of the keywords \<open>&&\<close> and \<open>||\<close> matches both operators, both keywords are in
  the rule set, and the one occurrence is counted once for each.
\<close>

theorem analyze_java_counts_operator_twice: "analyze_java ''a && b'' = 3"
  by (simp add: analyze_java_def count_complexity_keywords_def remove_comments_and_strings_def
      findall_count_def match_word_at_def lower_def lower_char_def is_word_char_def Let_def)

text \<open>
  Claim C3. With no sample the estimate is \<open>0.0\<close>. With samples it is the formula of
  the specification at the averages of the two readings,
  \<open>((5 + avg_cpu / 100 * 30 + avg_memory / 1000 * 2) * duration) / 3600\<close> rounded to 6
  digits, whatever the floating-point operations are.
\<close>

theorem energy_formula:
  "(samples = [] \<longrightarrow> calculate_energy_consumption ops samples duration = f_of_int ops 0)
   \<and> (samples \<noteq> [] \<longrightarrow>
        calculate_energy_consumption ops samples duration
          = energy_estimate ops (average ops (map cpu_percent samples))
              (average ops (map memory_mb samples)) duration)"
  by (simp add: energy_nonempty) (simp add: calculate_energy_consumption_def)

text \<open>
  In exact arithmetic: no sample gives 0, and the two samples (40, 900) and (60, 1100)
  over an hour give 5 + 15 + 2 = 22.
\<close>

theorem energy_formula_witness:
  "calculate_energy_consumption real_ops [] 3600 = 0
   \<and> calculate_energy_consumption real_ops
        [\<lparr>cpu_percent = 40, memory_mb = 900\<rparr>, \<lparr>cpu_percent = 60, memory_mb = 1100\<rparr>] 3600 = 22"
proof -
  have e: "energy_estimate real_ops 50 1000 3600 = 22"
    by (simp add: energy_estimate_def real_ops_def)
  from energy_formula [of "[]" real_ops 3600]
    energy_formula [of "[\<lparr>cpu_percent = 40, memory_mb = 900\<rparr>, \<lparr>cpu_percent = 60, memory_mb = 1100\<rparr>]"
      real_ops 3600] e
  show ?thesis by (simp add: average_def real_ops_def)
qed




text \<open>
  Claim C5, as the code has it. The body of a literal or of a comment does not matter
  to the count: the text scores what it scores with the empty literal or the empty
  comment in that place, so a keyword in the body adds nothing. This holds for a
  literal in double quotes, single quotes or backticks that begins where no comment is
  open and the quotes before it pair up, and whose body holds no comment opener and no
  quote of its own kind or of a kind replaced earlier; for a line comment, \<open>//\<close> or
  \<open>#\<close>, that runs to the end of its line, wherever it stands; and for a block
  comment that begins where no comment is open and not right behind a slash, whose body
  has no slash and no hash, and which no slash follows.
\<close>

theorem literal_or_comment_body_irrelevant:
  "((q = dquote \<or> q = squote \<or> q = backtick) \<and> comments_closed pre \<and> quotes_paired q pre
      \<and> literal_body q body
     \<longrightarrow> count_complexity_keywords (pre @ q # body @ q # post) keywords
           = count_complexity_keywords (pre @ q # q # post) keywords)
   \<and> (newline \<notin> set body \<and> line_ends post
     \<longrightarrow> count_complexity_keywords (pre @ slash # slash # body @ post) keywords
           = count_complexity_keywords (pre @ slash # slash # post) keywords)
   \<and> (newline \<notin> set body \<and> line_ends post
     \<longrightarrow> count_complexity_keywords (pre @ hash # body @ post) keywords
           = count_complexity_keywords (pre @ hash # post) keywords)
   \<and> (comments_closed pre \<and> (pre = [] \<or> last pre \<noteq> slash)
      \<and> slash \<notin> set body \<and> hash \<notin> set body \<and> (post = [] \<or> hd post \<noteq> slash)
     \<longrightarrow> count_complexity_keywords (pre @ slash # star # body @ star # slash # post) keywords
           = count_complexity_keywords (pre @ slash # star # star # slash # post) keywords)"
  by (simp add: count_complexity_keywords_def remove_literal remove_slash_comment
      remove_hash_comment remove_block_comment)

text \<open>
  A C text with an \<open>#include\<close> line, a division and an earlier literal before the
  literal \<open>"if"\<close>; a JavaScript text with the literal \<open>"it's"\<close> before the literal
  \<open>'if'\<close>, and one with a literal in backticks; a Java text with a \<open>//\<close> comment and
  one with a block comment; a Ruby text that ends in a \<open>#\<close> comment.
\<close>

theorem literal_or_comment_body_irrelevant_witness:
  "analyze_c_cpp (''#include <a/b.h>'' @ newline # ''x = y / 2; s = '' @ dquote # ''a'' @ dquote
        # ''; t = '' @ dquote # ''if'' @ dquote # '';'')
     = analyze_c_cpp (''#include <a/b.h>'' @ newline # ''x = y / 2; s = '' @ dquote # ''a'' @ dquote
        # ''; t = '' @ dquote # dquote # '';'')
   \<and> analyze_javascript (''s = '' @ dquote # ''it'' @ squote # ''s'' @ dquote # ''; t = ''
        @ squote # ''if'' @ squote # '';'')
     = analyze_javascript (''s = '' @ dquote # ''it'' @ squote # ''s'' @ dquote # ''; t = ''
        @ squote # squote # '';'')
   \<and> analyze_javascript (''t = '' @ backtick # ''if'' @ backtick # '';'')
     = analyze_javascript (''t = '' @ backtick # backtick # '';'')
   \<and> analyze_java (''x = 1; '' @ slash # slash # '' if while'' @ newline # ''y = 2;'')
     = analyze_java (''x = 1; '' @ slash # slash # newline # ''y = 2;'')
   \<and> analyze_ruby (''x = 1 '' @ hash # '' if'') = analyze_ruby (''x = 1 '' @ [hash])
   \<and> analyze_java (''x = 1; '' @ slash # star # '' if '' @ star # slash # '' y = 2;'')
     = analyze_java (''x = 1; '' @ slash # star # star # slash # '' y = 2;'')"
proof -
  let ?c = "''#include <a/b.h>'' @ newline # ''x = y / 2; s = '' @ dquote # ''a'' @ dquote # ''; t = ''"
  let ?j = "''s = '' @ dquote # ''it'' @ squote # ''s'' @ dquote # ''; t = ''"
  have c1: "comments_closed ?c"
    by (simp add: comments_closed_def last_line_def)
  have c2: "quotes_paired dquote ?c"
    by (simp add: quotes_paired_def Let_def)
  have c3: "literal_body dquote ''if''" by (simp add: literal_body_def)
  have j1: "comments_closed ?j"
    by (simp add: comments_closed_def last_line_def)
  have j2: "quotes_paired squote ?j"
    by (simp add: quotes_paired_def Let_def)
  have j3: "literal_body squote ''if''" by (simp add: literal_body_def)
  have b1: "comments_closed ''t = ''"
    by (simp add: comments_closed_def last_line_def)
  have b2: "quotes_paired backtick ''t = ''"
    by (simp add: quotes_paired_def Let_def)
  have b3: "literal_body backtick ''if''" by (simp add: literal_body_def)
  have l1: "newline \<notin> set '' if while''" "line_ends (newline # ''y = 2;'')"
    by (simp_all add: line_ends_def)
  have l2: "newline \<notin> set '' if''" "line_ends []"
    by (simp_all add: line_ends_def)
  have k1: "comments_closed ''x = 1; ''"
    by (simp add: comments_closed_def last_line_def)
  have k2: "''x = 1; '' = [] \<or> last ''x = 1; '' \<noteq> slash" by simp
  have k3: "slash \<notin> set '' if ''" "hash \<notin> set '' if ''"
    "'' y = 2;'' = [] \<or> hd '' y = 2;'' \<noteq> slash" by simp_all
  note t = literal_or_comment_body_irrelevant
  from t [where q = dquote and pre = ?c and body = "''if''" and post = "'';''"] c1 c2 c3
  have 1: "analyze_c_cpp (?c @ dquote # ''if'' @ dquote # '';'')
             = analyze_c_cpp (?c @ dquote # dquote # '';'')"
    unfolding analyze_c_cpp_def by blast
  from t [where q = squote and pre = ?j and body = "''if''" and post = "'';''"] j1 j2 j3
  have 2: "analyze_javascript (?j @ squote # ''if'' @ squote # '';'')
             = analyze_javascript (?j @ squote # squote # '';'')"
    unfolding analyze_javascript_def by blast
  from t [where q = backtick and pre = "''t = ''" and body = "''if''" and post = "'';''"] b1 b2 b3
  have 3: "analyze_javascript (''t = '' @ backtick # ''if'' @ backtick # '';'')
             = analyze_javascript (''t = '' @ backtick # backtick # '';'')"
    unfolding analyze_javascript_def by blast
  from t [where pre = "''x = 1; ''" and body = "'' if while''" and post = "newline # ''y = 2;''"] l1
  have 4: "analyze_java (''x = 1; '' @ slash # slash # '' if while'' @ newline # ''y = 2;'')
             = analyze_java (''x = 1; '' @ slash # slash # newline # ''y = 2;'')"
    unfolding analyze_java_def by blast
  from t [where pre = "''x = 1 ''" and body = "'' if''" and post = "[]"] l2
  have 5: "analyze_ruby (''x = 1 '' @ hash # '' if'') = analyze_ruby (''x = 1 '' @ [hash])"
    unfolding analyze_ruby_def by simp
  from t [where pre = "''x = 1; ''" and body = "'' if ''" and post = "'' y = 2;''"] k1 k2 k3
  have 6: "analyze_java (''x = 1; '' @ slash # star # '' if '' @ star # slash # '' y = 2;'')
             = analyze_java (''x = 1; '' @ slash # star # star # slash # '' y = 2;'')"
    unfolding analyze_java_def by blast
  from 1 2 3 4 5 6 show ?thesis by (simp only: append_Cons append_Nil append_assoc) 
qed

text \<open>
  Claim C5 as stated fails where the quotes before the literal do not pair up: in the
  Java text \<open>'"'\<close> (a character literal holding a double quote) followed by the string
  literal \<open>"if"\<close>, the first double quote pairs with the opening quote of the
  literal, the word \<open>if\<close> is left outside and is counted.
\<close>

theorem literal_after_quote_counts:
  "analyze_java ([squote, dquote, squote] @ [dquote] @ ''if'' @ [dquote])
     \<noteq> analyze_java [squote, dquote, squote]"
  by (simp add: analyze_java_def count_complexity_keywords_def remove_comments_and_strings_def
      findall_count_def match_word_at_def lower_def lower_char_def is_word_char_def Let_def)

text \<open>
  Claim C7. For a text that does not parse, the syntax-tree path returns 0: the parse
  error does not reach the caller, and the calculator object is as it was.
\<close>

theorem analyze_python_parse_failure:
  "parse code_content = None \<Longrightarrow> analyze_python parse depth code_content self = (0, self)"
  by (simp add: analyze_python_def)

text \<open>
  The text \<open>(\<close>, with the object holding 7 from an earlier call.
\<close>

theorem analyze_python_parse_failure_witness:
  "example_parse ''('' = None
   \<and> analyze_python example_parse 999 ''('' \<lparr>complexity = 7\<rparr> = (0, \<lparr>complexity = 7\<rparr>)"
proof -
  have p: "example_parse ''('' = None"
    by (simp add: example_parse_def example_function_text_def)
  from analyze_python_parse_failure [of example_parse "''(''" 999 "\<lparr>complexity = 7\<rparr>"] p
  show ?thesis by simp
qed

text \<open>
  Claim C8. For a fixed duration that is not negative, the estimate does not decrease
  when the average of the CPU readings and the average of the memory readings do not
  decrease, given operations that are monotone.
\<close>

theorem energy_monotone:
  "monotone_ops ops \<Longrightarrow> f_of_int ops 0 \<le> duration \<Longrightarrow> s1 \<noteq> [] \<Longrightarrow> s2 \<noteq> [] \<Longrightarrow>
     average ops (map cpu_percent s1) \<le> average ops (map cpu_percent s2) \<Longrightarrow>
     average ops (map memory_mb s1) \<le> average ops (map memory_mb s2) \<Longrightarrow>
     calculate_energy_consumption ops s1 duration \<le> calculate_energy_consumption ops s2 duration"
  by (simp add: energy_nonempty energy_estimate_mono)

text \<open>
  In exact arithmetic, one sample (40, 900) against one sample (60, 1100) over an hour.
\<close>

theorem energy_monotone_witness:
  "calculate_energy_consumption real_ops [\<lparr>cpu_percent = 40, memory_mb = 900\<rparr>] 3600
     \<le> calculate_energy_consumption real_ops [\<lparr>cpu_percent = 60, memory_mb = 1100\<rparr>] 3600"
proof -
  have d: "f_of_int real_ops 0 \<le> (3600 :: real)" by (simp add: real_ops_def)
  have c: "average real_ops (map cpu_percent [\<lparr>cpu_percent = 40, memory_mb = 900 :: real\<rparr>])
           \<le> average real_ops (map cpu_percent [\<lparr>cpu_percent = 60, memory_mb = 1100\<rparr>])"
    by (simp add: average_def real_ops_def)
  have r: "average real_ops (map memory_mb [\<lparr>cpu_percent = 40, memory_mb = 900 :: real\<rparr>])
           \<le> average real_ops (map memory_mb [\<lparr>cpu_percent = 60, memory_mb = 1100\<rparr>])"
    by (simp add: average_def real_ops_def)
  show ?thesis
    by (rule energy_monotone [OF real_ops_monotone d _ _ c r]) simp_all
qed

text \<open>
  Claim C9. The integer \<open>calculate_complexity\<close> returns depends on the file path and
  the text only: whatever the calculator object holds before the call, from earlier
  calls or otherwise, the result is the same.
\<close>

theorem calculate_complexity_ignores_state:
  "fst (calculate_complexity parse depth file_path code_content self)
     = fst (calculate_complexity parse depth file_path code_content self')"
  using analyze_python_state [of parse depth code_content self self']
  by (simp add: calculate_complexity_def Let_def)

text \<open>
  Claim C10. For every file path, whatever its extension, \<open>calculate_complexity\<close>
  returns 1 on the empty text: the empty text parses as an empty module, which adds
  nothing to the base, and no keyword has a match in it.
\<close>

theorem calculate_complexity_empty:
  "parse [] = Some (Node (OtherClass ''Module'') []) \<Longrightarrow>
     fst (calculate_complexity parse depth file_path [] self) = 1"
  by (simp add: calculate_complexity_def Let_def analyzers count_complexity_keywords_empty
      analyze_python_within_depth)

text \<open>
  The empty text under a Python and under a Java file name.
\<close>

theorem calculate_complexity_empty_witness:
  "example_parse [] = Some (Node (OtherClass ''Module'') [])
   \<and> fst (calculate_complexity example_parse 0 ''empty.py'' [] \<lparr>complexity = 0\<rparr>) = 1
   \<and> fst (calculate_complexity example_parse 999 ''Empty.JAVA'' [] \<lparr>complexity = 0\<rparr>) = 1"
proof -
  have p: "example_parse [] = Some (Node (OtherClass ''Module'') [])"
    by (simp add: example_parse_def)
  from calculate_complexity_empty [of example_parse 0 "''empty.py''" "\<lparr>complexity = 0\<rparr>"]
    calculate_complexity_empty [of example_parse 999 "''Empty.JAVA''" "\<lparr>complexity = 0\<rparr>"] p
  show ?thesis by simp
qed

end
